theory Spec2Isabelle
  imports Main "HOL-Library.Word"
begin

section \<open>Data model\<close>

text \<open>
  Modelled from the spec: the header \<^verbatim>\<open>hashtools.h\<close>, which declares the types and the
  constants \<^verbatim>\<open>HASH_EMPTY\<close>, \<^verbatim>\<open>HASH_USED\<close> and \<^verbatim>\<open>HASH_DELETED\<close>, is not among the
  sources. The slot and the table follow the data model of the specification (a slot is
  all-zero and \<^verbatim>\<open>EMPTY\<close> initially) and the field names that \<^verbatim>\<open>hash-table.c\<close> and
  \<^verbatim>\<open>hash-functions.c\<close> use.

  \<^item> A key argument is a pointer and a length \<^verbatim>\<open>keylen\<close>, as in C. The pointer is modelled
    as the list of the bytes of the caller's buffer from the pointer on; a read behind the
    end of that list leaves the buffer. Nothing says that the buffer holds a NUL byte.
  \<^item> A stored key is the list of bytes of the heap block that \<^verbatim>\<open>strdup\<close> allocated.
  \<^item> A value is an opaque pointer, modelled as an address with \<open>0\<close> for \<^verbatim>\<open>NULL\<close>.
  \<^item> \<^verbatim>\<open>HashIndex\<close> is taken to be \<^verbatim>\<open>int\<close> (the code keeps hash indices in \<^verbatim>\<open>int\<close>
    variables and prints the size with \<^verbatim>\<open>%d\<close>), and \<^verbatim>\<open>int\<close> to have 32 bits. The
    arithmetic on hash sums and on the attempt counters of the probes is checked against
    that range. The cost counters and the entry count are not bounded.
  \<^item> A byte of a key counts with its unsigned value (the byte values of the
    specification).
\<close>

type_synonym byte = "8 word"
type_synonym AAKeyType = "byte list"
type_synonym ptr = nat

datatype validity_tag = HASH_EMPTY | HASH_USED | HASH_DELETED

record KeyDataPair =
  key :: AAKeyType
  keylen :: nat
  valuep :: ptr
  validity :: validity_tag

datatype HashAlgorithm = HashBySum | HashByLength | HashByWeightSum

datatype HashProbe = LinearProbe | QuadraticProbe | DoubleHashProbe

record AssociativeArray =
  hashAlgorithmPrimary :: HashAlgorithm
  hashNamePrimary :: string
  hashAlgorithmSecondary :: HashAlgorithm
  hashNameSecondary :: string
  hashProbe :: HashProbe
  probeName :: string
  table :: "KeyDataPair list"
  size_aa :: int
  nEntries :: int
  insertCost :: int
  searchCost :: int
  deleteCost :: int

text \<open>
  What C leaves undefined is a value of the model: a read outside the slot array, a read
  behind the end of a key buffer (by \<^verbatim>\<open>memcmp\<close>, \<^verbatim>\<open>strdup\<close> or a hash loop), a remainder
  by zero, and an \<^verbatim>\<open>int\<close> result outside the range of \<^verbatim>\<open>int\<close>.
\<close>

datatype fault = OutOfBounds | BufferOverread | DivisionByZero | IntegerOverflow

definition INT_MAX :: int where
  "INT_MAX = 2147483647"

definition int_ok :: "int \<Rightarrow> bool" where
  "int_ok x \<longleftrightarrow> - INT_MAX - 1 \<le> x \<and> x \<le> INT_MAX"

text \<open>The remainder of C on \<^verbatim>\<open>int\<close> truncates towards zero.\<close>

definition c_rem :: "int \<Rightarrow> int \<Rightarrow> int" where
  "c_rem a b = sgn a * (\<bar>a\<bar> mod \<bar>b\<bar>)"

definition table_at :: "AssociativeArray \<Rightarrow> int \<Rightarrow> fault + KeyDataPair" where
  "table_at aarray index =
     (if 0 \<le> index \<and> index < int (length (table aarray))
      then Inr (table aarray ! nat index) else Inl OutOfBounds)"

section \<open>Key tools (hash-functions.c)\<close>

definition memcmp_eq :: "byte list \<Rightarrow> byte list \<Rightarrow> nat \<Rightarrow> fault + bool" where
  "memcmp_eq b1 b2 n =
     (if n \<le> length b1 \<and> n \<le> length b2 then Inr (take n b1 = take n b2)
      else Inl BufferOverread)"

definition doKeysMatch :: "AAKeyType \<Rightarrow> nat \<Rightarrow> AAKeyType \<Rightarrow> nat \<Rightarrow> fault + bool" where
  "doKeysMatch key1 key1len key2 key2len =
     (if key1len \<noteq> key2len then Inr False else memcmp_eq key1 key2 key1len)"

text \<open>
  \<^verbatim>\<open>strdup\<close> reads its argument up to the first NUL byte, whatever \<^verbatim>\<open>keylen\<close> is, and
  returns a block with these bytes and the terminator. It leaves the buffer when the buffer
  holds no NUL byte.
\<close>

definition strdup :: "AAKeyType \<Rightarrow> fault + AAKeyType" where
  "strdup k =
     (if 0 \<in> set k then Inr (takeWhile (\<lambda>b. b \<noteq> 0) k @ [0]) else Inl BufferOverread)"

section \<open>Hash strategies (hash-functions.c)\<close>

text \<open>The hash loops read \<^verbatim>\<open>key[i]\<close> for every \<^verbatim>\<open>i\<close> below \<^verbatim>\<open>keyLength\<close> and add up
  in a \<^verbatim>\<open>HashIndex\<close>.\<close>

definition hashByLength :: "AAKeyType \<Rightarrow> nat \<Rightarrow> int \<Rightarrow> fault + int" where
  "hashByLength k keyLength sz =
     (if sz = 0 then Inl DivisionByZero else Inr (c_rem (int keyLength) sz))"

fun hashBySum_loop :: "byte list \<Rightarrow> int \<Rightarrow> fault + int" where
  "hashBySum_loop [] acc = Inr acc"
| "hashBySum_loop (b # bs) acc =
     (if int_ok (acc + int (unat b)) then hashBySum_loop bs (acc + int (unat b))
      else Inl IntegerOverflow)"

definition hashBySum :: "AAKeyType \<Rightarrow> nat \<Rightarrow> int \<Rightarrow> fault + int" where
  "hashBySum k keyLength sz =
     (if length k < keyLength then Inl BufferOverread
      else case hashBySum_loop (take keyLength k) 0 of
             Inl e \<Rightarrow> Inl e
           | Inr acc \<Rightarrow> if sz = 0 then Inl DivisionByZero else Inr (c_rem acc sz))"

fun hashByWeightSum_loop :: "byte list \<Rightarrow> int \<Rightarrow> int \<Rightarrow> fault + int" where
  "hashByWeightSum_loop [] multFactor acc = Inr acc"
| "hashByWeightSum_loop (b # bs) multFactor acc =
     (if int_ok (int (unat b) * multFactor) \<and> int_ok (acc + int (unat b) * multFactor) \<and>
         int_ok (multFactor + 1)
      then hashByWeightSum_loop bs (multFactor + 1) (acc + int (unat b) * multFactor)
      else Inl IntegerOverflow)"

definition hashByWeightSum :: "AAKeyType \<Rightarrow> nat \<Rightarrow> int \<Rightarrow> fault + int" where
  "hashByWeightSum k keyLength sz =
     (if length k < keyLength then Inl BufferOverread
      else case hashByWeightSum_loop (take keyLength k) 1 0 of
             Inl e \<Rightarrow> Inl e
           | Inr acc \<Rightarrow> if sz = 0 then Inl DivisionByZero else Inr (c_rem acc sz))"

text \<open>A call through one of the function pointers \<^verbatim>\<open>hashAlgorithmPrimary\<close>,
  \<^verbatim>\<open>hashAlgorithmSecondary\<close>.\<close>

fun call_hash :: "HashAlgorithm \<Rightarrow> AAKeyType \<Rightarrow> nat \<Rightarrow> int \<Rightarrow> fault + int" where
  "call_hash HashBySum k n sz = hashBySum k n sz"
| "call_hash HashByLength k n sz = hashByLength k n sz"
| "call_hash HashByWeightSum k n sz = hashByWeightSum k n sz"

section \<open>Probe strategies (hash-functions.c)\<close>

text \<open>
  A probe returns the table (it charges \<^verbatim>\<open>insertCost\<close>) and the index it stopped at, \<open>-1\<close>
  when it failed. The argument \<open>cost\<close> is the pointer \<^verbatim>\<open>int *cost\<close>: \<open>None\<close> for
  \<^verbatim>\<open>NULL\<close>; no probe writes through it.
\<close>

function linearProbe_loop ::
  "AssociativeArray \<Rightarrow> AAKeyType \<Rightarrow> nat \<Rightarrow> int \<Rightarrow> int \<Rightarrow> int
     \<Rightarrow> fault + (AssociativeArray \<times> int)" where
  "linearProbe_loop aarray k keyLength stopOnInvalid currentIndex probeCost =
     (if probeCost < size_aa aarray then
        (let currentIndex = c_rem (currentIndex + 1) (size_aa aarray);
             probeCost = probeCost + 1
         in case table_at aarray currentIndex of
              Inl e \<Rightarrow> Inl e
            | Inr s \<Rightarrow>
                if validity s \<noteq> HASH_USED
                then Inr (aarray\<lparr>insertCost := insertCost aarray + 1\<rparr>, currentIndex)
                else (case doKeysMatch k keyLength (key s) (keylen s) of
                        Inl e \<Rightarrow> Inl e
                      | Inr m \<Rightarrow>
                          if m then Inr (aarray, currentIndex)
                          else if stopOnInvalid \<noteq> 0 \<and> validity s = HASH_DELETED
                          then Inr (aarray, - 1)
                          else linearProbe_loop aarray k keyLength stopOnInvalid
                                 currentIndex probeCost))
      else Inr (aarray, - 1))"
  by pat_completeness auto
termination
  by (relation "measure (\<lambda>(aarray, k, keyLength, stopOnInvalid, currentIndex, probeCost).
        nat (size_aa aarray - probeCost))") auto

definition linearProbe ::
  "AssociativeArray \<Rightarrow> AAKeyType \<Rightarrow> nat \<Rightarrow> int \<Rightarrow> int \<Rightarrow> int option
     \<Rightarrow> fault + (AssociativeArray \<times> int)" where
  "linearProbe aarray k keyLength index stopOnInvalid cost =
     linearProbe_loop aarray k keyLength stopOnInvalid index 0"

text \<open>
  The loops of the quadratic and the double-hashing probe have no exit condition of their
  own. One round of such a loop either leaves the function (\<open>Exit\<close>, with the result) or
  goes on with the next value of \<^verbatim>\<open>attempt\<close> (\<open>Again\<close>). The counter \<^verbatim>\<open>attempt\<close> is an
  \<^verbatim>\<open>int\<close>: the products \<^verbatim>\<open>attempt * attempt\<close> and \<^verbatim>\<open>attempt * stepSize\<close>, the sums with
  \<^verbatim>\<open>index\<close> and the increment of \<^verbatim>\<open>attempt\<close> are undefined once they leave its range,
  which ends the loop at the latest.
\<close>

datatype ('r, 's) round = Exit 'r | Again 's

definition quadraticProbe_round ::
  "AssociativeArray \<Rightarrow> AAKeyType \<Rightarrow> nat \<Rightarrow> int \<Rightarrow> int \<Rightarrow> int option \<Rightarrow> int
     \<Rightarrow> (fault + (AssociativeArray \<times> int), AssociativeArray \<times> int) round" where
  "quadraticProbe_round tbl k keyLength index stopOnInvalid cost attempt =
     (if \<not> int_ok (attempt * attempt) \<or> \<not> int_ok (index + attempt * attempt)
      then Exit (Inl IntegerOverflow)
      else if size_aa tbl = 0 then Exit (Inl DivisionByZero)
      else
        (let newIndex = c_rem (index + attempt * attempt) (size_aa tbl)
         in case table_at tbl newIndex of
              Inl e \<Rightarrow> Exit (Inl e)
            | Inr s \<Rightarrow>
                if validity s \<noteq> HASH_USED
                then Exit (Inr (if cost \<noteq> None
                                then tbl\<lparr>insertCost := insertCost tbl + 1\<rparr>
                                else tbl, newIndex))
                else (case doKeysMatch (key s) (keylen s) k keyLength of
                        Inl e \<Rightarrow> Exit (Inl e)
                      | Inr m \<Rightarrow>
                          if m
                          then Exit (Inr (if cost \<noteq> None
                                          then tbl\<lparr>insertCost := insertCost tbl + 1\<rparr>
                                          else tbl, newIndex))
                          else
                            (let tbl' = tbl\<lparr>insertCost := insertCost tbl + 1\<rparr>
                             in if stopOnInvalid \<noteq> 0 \<and> validity s = HASH_DELETED
                                then Exit (Inr (tbl', - 1))
                                else if \<not> int_ok (attempt + 1) then Exit (Inl IntegerOverflow)
                                else Again (tbl', attempt + 1)))))"

function quadraticProbe_loop ::
  "AssociativeArray \<Rightarrow> AAKeyType \<Rightarrow> nat \<Rightarrow> int \<Rightarrow> int \<Rightarrow> int option \<Rightarrow> int
     \<Rightarrow> fault + (AssociativeArray \<times> int)" where
  "quadraticProbe_loop tbl k keyLength index stopOnInvalid cost attempt =
     (case quadraticProbe_round tbl k keyLength index stopOnInvalid cost attempt of
        Exit r \<Rightarrow> r
      | Again (tbl', attempt') \<Rightarrow>
          quadraticProbe_loop tbl' k keyLength index stopOnInvalid cost attempt')"
  by pat_completeness auto
termination
proof (relation "measure (\<lambda>(tbl, k, keyLength, index, stopOnInvalid, cost, attempt).
        nat (INT_MAX + 1 - attempt))")
  show "wf (measure (\<lambda>(tbl, k, keyLength, index, stopOnInvalid, cost, attempt).
        nat (INT_MAX + 1 - attempt)))"
    by simp
next
  fix tbl :: AssociativeArray and k :: AAKeyType and keyLength :: nat
    and index stopOnInvalid attempt :: int and cost :: "int option"
    and x2 :: "AssociativeArray \<times> int" and tbl' :: AssociativeArray and attempt' :: int
  assume r: "quadraticProbe_round tbl k keyLength index stopOnInvalid cost attempt = Again x2"
    and x: "(tbl', attempt') = x2"
  from r x have "attempt' = attempt + 1 \<and> int_ok (attempt + 1)"
    by (auto simp: quadraticProbe_round_def Let_def split: if_splits sum.splits)
  then show "((tbl', k, keyLength, index, stopOnInvalid, cost, attempt'),
              (tbl, k, keyLength, index, stopOnInvalid, cost, attempt))
             \<in> measure (\<lambda>(tbl, k, keyLength, index, stopOnInvalid, cost, attempt).
                  nat (INT_MAX + 1 - attempt))"
    by (simp add: int_ok_def)
qed

definition quadraticProbe ::
  "AssociativeArray \<Rightarrow> AAKeyType \<Rightarrow> nat \<Rightarrow> int \<Rightarrow> int \<Rightarrow> int option
     \<Rightarrow> fault + (AssociativeArray \<times> int)" where
  "quadraticProbe tbl k keyLength index stopOnInvalid cost =
     quadraticProbe_loop tbl k keyLength index stopOnInvalid cost 1"

definition doubleHashProbe_round ::
  "AssociativeArray \<Rightarrow> AAKeyType \<Rightarrow> nat \<Rightarrow> int \<Rightarrow> int \<Rightarrow> int \<Rightarrow> int
     \<Rightarrow> (fault + (AssociativeArray \<times> int), AssociativeArray \<times> int) round" where
  "doubleHashProbe_round aarray k keyLength index stopOnInvalid stepSize attempt =
     (if \<not> int_ok (attempt * stepSize) \<or> \<not> int_ok (index + attempt * stepSize)
      then Exit (Inl IntegerOverflow)
      else if size_aa aarray = 0 then Exit (Inl DivisionByZero)
      else
        (let newIndex = c_rem (index + attempt * stepSize) (size_aa aarray)
         in case table_at aarray newIndex of
              Inl e \<Rightarrow> Exit (Inl e)
            | Inr s \<Rightarrow>
                if validity s \<noteq> HASH_USED
                then Exit (Inr (aarray\<lparr>insertCost := insertCost aarray + 1\<rparr>, newIndex))
                else (case doKeysMatch (key s) (keylen s) k keyLength of
                        Inl e \<Rightarrow> Exit (Inl e)
                      | Inr m \<Rightarrow>
                          if m then Exit (Inr (aarray, newIndex))
                          else
                            (let aarray' = aarray\<lparr>insertCost := insertCost aarray + 1\<rparr>
                             in if stopOnInvalid \<noteq> 0 \<and> validity s = HASH_DELETED
                                then Exit (Inr (aarray', - 1))
                                else if \<not> int_ok (attempt + 1) then Exit (Inl IntegerOverflow)
                                else Again (aarray', attempt + 1)))))"

function doubleHashProbe_loop ::
  "AssociativeArray \<Rightarrow> AAKeyType \<Rightarrow> nat \<Rightarrow> int \<Rightarrow> int \<Rightarrow> int \<Rightarrow> int
     \<Rightarrow> fault + (AssociativeArray \<times> int)" where
  "doubleHashProbe_loop aarray k keyLength index stopOnInvalid stepSize attempt =
     (case doubleHashProbe_round aarray k keyLength index stopOnInvalid stepSize attempt of
        Exit r \<Rightarrow> r
      | Again (aarray', attempt') \<Rightarrow>
          doubleHashProbe_loop aarray' k keyLength index stopOnInvalid stepSize attempt')"
  by pat_completeness auto
termination
proof (relation "measure (\<lambda>(aarray, k, keyLength, index, stopOnInvalid, stepSize, attempt).
        nat (INT_MAX + 1 - attempt))")
  show "wf (measure (\<lambda>(aarray, k, keyLength, index, stopOnInvalid, stepSize, attempt).
        nat (INT_MAX + 1 - attempt)))"
    by simp
next
  fix aarray :: AssociativeArray and k :: AAKeyType and keyLength :: nat
    and index stopOnInvalid stepSize attempt :: int
    and x2 :: "AssociativeArray \<times> int" and aarray' :: AssociativeArray and attempt' :: int
  assume r: "doubleHashProbe_round aarray k keyLength index stopOnInvalid stepSize attempt
               = Again x2"
    and x: "(aarray', attempt') = x2"
  from r x have "attempt' = attempt + 1 \<and> int_ok (attempt + 1)"
    by (auto simp: doubleHashProbe_round_def Let_def split: if_splits sum.splits)
  then show "((aarray', k, keyLength, index, stopOnInvalid, stepSize, attempt'),
              (aarray, k, keyLength, index, stopOnInvalid, stepSize, attempt))
             \<in> measure (\<lambda>(aarray, k, keyLength, index, stopOnInvalid, stepSize, attempt).
                  nat (INT_MAX + 1 - attempt))"
    by (simp add: int_ok_def)
qed

definition doubleHashProbe ::
  "AssociativeArray \<Rightarrow> AAKeyType \<Rightarrow> nat \<Rightarrow> int \<Rightarrow> int \<Rightarrow> int option
     \<Rightarrow> fault + (AssociativeArray \<times> int)" where
  "doubleHashProbe aarray k keyLength index stopOnInvalid cost =
     (case call_hash (hashAlgorithmSecondary aarray) k keyLength (size_aa aarray) of
        Inl e \<Rightarrow> Inl e
      | Inr stepSize \<Rightarrow>
          doubleHashProbe_loop aarray k keyLength index stopOnInvalid stepSize 0)"

text \<open>
  The rounds of the two loops counted: the state after \<open>n\<close> rounds, or the result with
  which the loop left the function before.
\<close>

fun quadraticProbe_rounds ::
  "nat \<Rightarrow> AssociativeArray \<Rightarrow> AAKeyType \<Rightarrow> nat \<Rightarrow> int \<Rightarrow> int \<Rightarrow> int option \<Rightarrow> int
     \<Rightarrow> (fault + (AssociativeArray \<times> int), AssociativeArray \<times> int) round" where
  "quadraticProbe_rounds 0 tbl k keyLength index stopOnInvalid cost attempt =
     Again (tbl, attempt)"
| "quadraticProbe_rounds (Suc n) tbl k keyLength index stopOnInvalid cost attempt =
     (case quadraticProbe_round tbl k keyLength index stopOnInvalid cost attempt of
        Exit r \<Rightarrow> Exit r
      | Again (tbl', attempt') \<Rightarrow>
          quadraticProbe_rounds n tbl' k keyLength index stopOnInvalid cost attempt')"

fun doubleHashProbe_rounds ::
  "nat \<Rightarrow> AssociativeArray \<Rightarrow> AAKeyType \<Rightarrow> nat \<Rightarrow> int \<Rightarrow> int \<Rightarrow> int \<Rightarrow> int
     \<Rightarrow> (fault + (AssociativeArray \<times> int), AssociativeArray \<times> int) round" where
  "doubleHashProbe_rounds 0 aarray k keyLength index stopOnInvalid stepSize attempt =
     Again (aarray, attempt)"
| "doubleHashProbe_rounds (Suc n) aarray k keyLength index stopOnInvalid stepSize attempt =
     (case doubleHashProbe_round aarray k keyLength index stopOnInvalid stepSize attempt of
        Exit r \<Rightarrow> Exit r
      | Again (aarray', attempt') \<Rightarrow>
          doubleHashProbe_rounds n aarray' k keyLength index stopOnInvalid stepSize attempt')"

text \<open>A call through the function pointer \<^verbatim>\<open>hashProbe\<close>.\<close>

definition call_probe ::
  "AssociativeArray \<Rightarrow> AAKeyType \<Rightarrow> nat \<Rightarrow> int \<Rightarrow> int \<Rightarrow> int option
     \<Rightarrow> fault + (AssociativeArray \<times> int)" where
  "call_probe aarray k keyLength index stopOnInvalid cost =
     (case hashProbe aarray of
        LinearProbe \<Rightarrow> linearProbe aarray k keyLength index stopOnInvalid cost
      | QuadraticProbe \<Rightarrow> quadraticProbe aarray k keyLength index stopOnInvalid cost
      | DoubleHashProbe \<Rightarrow> doubleHashProbe aarray k keyLength index stopOnInvalid cost)"

section \<open>The table engine (hash-table.c)\<close>

definition lookupNamedHashStrategy :: "string \<Rightarrow> HashAlgorithm" where
  "lookupNamedHashStrategy name =
     (if take 3 name = ''sum'' then HashBySum
      else if take 3 name = ''len'' then HashByLength
      else if take 3 name = ''wei'' then HashByWeightSum
      else HashBySum)"

definition lookupNamedProbingStrategy :: "string \<Rightarrow> HashProbe" where
  "lookupNamedProbingStrategy name =
     (if take 3 name = ''lin'' then LinearProbe
      else if take 3 name = ''qua'' then QuadraticProbe
      else if take 3 name = ''dou'' then DoubleHashProbe
      else LinearProbe)"

text \<open>A slot after \<^verbatim>\<open>memset\<close> with zeros.\<close>

definition zero_slot :: KeyDataPair where
  "zero_slot = \<lparr>key = [], keylen = 0, valuep = 0, validity = HASH_EMPTY\<rparr>"

text \<open>
  \<^verbatim>\<open>getLargerPrime\<close> is declared outside the sources and is a parameter of the
  constructor. \<open>None\<close> is the \<^verbatim>\<open>NULL\<close> that the constructor returns when no size is found.
\<close>

definition aaCreateAssociativeArray ::
  "(int \<Rightarrow> int) \<Rightarrow> int \<Rightarrow> string \<Rightarrow> string \<Rightarrow> string \<Rightarrow> AssociativeArray option" where
  "aaCreateAssociativeArray getLargerPrime sz probingStrategy hashPrimary hashSecondary =
     (let newSize = getLargerPrime sz
      in if newSize < 1 then None
         else Some \<lparr>hashAlgorithmPrimary = lookupNamedHashStrategy hashPrimary,
                    hashNamePrimary = hashPrimary,
                    hashAlgorithmSecondary = lookupNamedHashStrategy hashSecondary,
                    hashNameSecondary = hashSecondary,
                    hashProbe = lookupNamedProbingStrategy probingStrategy,
                    probeName = probingStrategy,
                    table = replicate (nat newSize) zero_slot,
                    size_aa = newSize,
                    nEntries = 0,
                    insertCost = 0, searchCost = 0, deleteCost = 0\<rparr>)"

text \<open>
  The visitor is a function of the key, its length, the value and the user data; it returns
  its status and the user data as it left them.
\<close>

function aaIterateAction_loop ::
  "AssociativeArray \<Rightarrow> (AAKeyType \<Rightarrow> nat \<Rightarrow> ptr \<Rightarrow> 'u \<Rightarrow> int \<times> 'u) \<Rightarrow> 'u \<Rightarrow> int
     \<Rightarrow> fault + (int \<times> 'u)" where
  "aaIterateAction_loop aarray userfunction userdata i =
     (if i < size_aa aarray then
        (case table_at aarray i of
           Inl e \<Rightarrow> Inl e
         | Inr s \<Rightarrow>
             if validity s = HASH_USED
             then (case userfunction (key s) (keylen s) (valuep s) userdata of
                     (r, userdata') \<Rightarrow>
                       if r < 0 then Inr (- 1, userdata')
                       else aaIterateAction_loop aarray userfunction userdata' (i + 1))
             else aaIterateAction_loop aarray userfunction userdata (i + 1))
      else Inr (1, userdata))"
  by pat_completeness auto
termination
  by (relation "measure (\<lambda>(aarray, userfunction, userdata, i). nat (size_aa aarray - i))")
     auto

definition aaIterateAction ::
  "AssociativeArray \<Rightarrow> (AAKeyType \<Rightarrow> nat \<Rightarrow> ptr \<Rightarrow> 'u \<Rightarrow> int \<times> 'u) \<Rightarrow> 'u
     \<Rightarrow> fault + (int \<times> 'u)" where
  "aaIterateAction aarray userfunction userdata =
     aaIterateAction_loop aarray userfunction userdata 0"

text \<open>
  The operations return the table and the C return value; \<open>Some (Inl e)\<close> is a call that
  runs into undefined behaviour. Each \<^verbatim>\<open>while\<close> loop of the three operations goes on with
  the index that the probe returned; \<open>None\<close> stands for a loop that does not end.
\<close>

partial_function (option) aaInsert_loop ::
  "AssociativeArray \<Rightarrow> AAKeyType \<Rightarrow> nat \<Rightarrow> ptr \<Rightarrow> int \<Rightarrow> int \<Rightarrow> int
     \<Rightarrow> (fault + (AssociativeArray \<times> int)) option" where
  "aaInsert_loop aarray k keylen' v originalIndex cost index =
     (case table_at aarray index of
        Inl e \<Rightarrow> Some (Inl e)
      | Inr s \<Rightarrow>
          if validity s = HASH_USED
          then (case doKeysMatch (key s) (keylen s) k keylen' of
                  Inl e \<Rightarrow> Some (Inl e)
                | Inr m \<Rightarrow>
                    if m then Some (Inr (aarray, - 1))
                    else (case call_probe aarray k keylen' originalIndex 0 (Some (cost + 1)) of
                            Inl e \<Rightarrow> Some (Inl e)
                          | Inr (aarray', index') \<Rightarrow>
                              if index' = originalIndex then Some (Inr (aarray', - 1))
                              else aaInsert_loop aarray' k keylen' v originalIndex
                                     (cost + 1) index'))
          else (case strdup k of
                  Inl e \<Rightarrow> Some (Inl e)
                | Inr copy \<Rightarrow>
                    Some (Inr (aarray\<lparr>table := (table aarray)[nat index :=
                                         \<lparr>key = copy, keylen = keylen', valuep = v,
                                          validity = HASH_USED\<rparr>],
                                       nEntries := nEntries aarray + 1\<rparr>, index))))"

declare aaInsert_loop.simps [code]

definition aaInsert ::
  "AssociativeArray \<Rightarrow> AAKeyType \<Rightarrow> nat \<Rightarrow> ptr
     \<Rightarrow> (fault + (AssociativeArray \<times> int)) option" where
  "aaInsert aarray k keylen' v =
     (if nEntries aarray \<ge> size_aa aarray then Some (Inr (aarray, - 1))
      else (case call_hash (hashAlgorithmPrimary aarray) k keylen' (size_aa aarray) of
              Inl e \<Rightarrow> Some (Inl e)
            | Inr index \<Rightarrow> aaInsert_loop aarray k keylen' v index 0 index))"

partial_function (option) aaLookup_loop ::
  "AssociativeArray \<Rightarrow> AAKeyType \<Rightarrow> nat \<Rightarrow> int \<Rightarrow> int \<Rightarrow> int
     \<Rightarrow> (fault + (AssociativeArray \<times> ptr)) option" where
  "aaLookup_loop aarray k keylen' originalIndex cost index =
     (case table_at aarray index of
        Inl e \<Rightarrow> Some (Inl e)
      | Inr s \<Rightarrow>
          if validity s = HASH_USED
          then (let aarray1 = aarray\<lparr>searchCost := searchCost aarray + 1\<rparr>
                in case doKeysMatch (key s) (keylen s) k keylen' of
                     Inl e \<Rightarrow> Some (Inl e)
                   | Inr m \<Rightarrow>
                       if m then Some (Inr (aarray1, valuep s))
                       else (case call_probe aarray1 k keylen' originalIndex 0 (Some cost) of
                               Inl e \<Rightarrow> Some (Inl e)
                             | Inr (aarray2, index') \<Rightarrow>
                                 if index' = originalIndex then Some (Inr (aarray2, 0))
                                 else aaLookup_loop aarray2 k keylen' originalIndex cost
                                        index'))
          else Some (Inr (aarray, 0)))"

declare aaLookup_loop.simps [code]

definition aaLookup ::
  "AssociativeArray \<Rightarrow> AAKeyType \<Rightarrow> nat \<Rightarrow> (fault + (AssociativeArray \<times> ptr)) option" where
  "aaLookup aarray k keylen' =
     (case call_hash (hashAlgorithmPrimary aarray) k keylen' (size_aa aarray) of
        Inl e \<Rightarrow> Some (Inl e)
      | Inr index \<Rightarrow> aaLookup_loop aarray k keylen' index 0 index)"

partial_function (option) aaDelete_loop ::
  "AssociativeArray \<Rightarrow> AAKeyType \<Rightarrow> nat \<Rightarrow> int \<Rightarrow> int \<Rightarrow> int
     \<Rightarrow> (fault + (AssociativeArray \<times> ptr)) option" where
  "aaDelete_loop aarray k keylen' originalIndex cost index =
     (case table_at aarray index of
        Inl e \<Rightarrow> Some (Inl e)
      | Inr s \<Rightarrow>
          if validity s = HASH_USED
          then (let aarray1 = aarray\<lparr>deleteCost := deleteCost aarray + 1\<rparr>
                in case doKeysMatch (key s) (keylen s) k keylen' of
                     Inl e \<Rightarrow> Some (Inl e)
                   | Inr m \<Rightarrow>
                       if m
                       then Some (Inr (aarray1\<lparr>table := (table aarray1)[nat index :=
                                                 s\<lparr>validity := HASH_DELETED\<rparr>]\<rparr>,
                                       valuep s))
                       else (case call_probe aarray1 k keylen' originalIndex 0 (Some cost) of
                               Inl e \<Rightarrow> Some (Inl e)
                             | Inr (aarray2, index') \<Rightarrow>
                                 if index' = originalIndex then Some (Inr (aarray2, 0))
                                 else aaDelete_loop aarray2 k keylen' originalIndex cost
                                        index'))
          else Some (Inr (aarray, 0)))"

declare aaDelete_loop.simps [code]

definition aaDelete ::
  "AssociativeArray \<Rightarrow> AAKeyType \<Rightarrow> nat \<Rightarrow> (fault + (AssociativeArray \<times> ptr)) option" where
  "aaDelete aarray k keylen' =
     (case call_hash (hashAlgorithmPrimary aarray) k keylen' (size_aa aarray) of
        Inl e \<Rightarrow> Some (Inl e)
      | Inr index \<Rightarrow> aaDelete_loop aarray k keylen' index 0 index)"

section \<open>Callers\<close>

text \<open>
  Modelled from the spec: \<^verbatim>\<open>getLargerPrime\<close> (the prime sizer, declared outside the
  sources) returns the smallest prime that is at least the request, out of the primes below
  5000, and a value below 1 when there is none.
\<close>

fun has_divisor :: "nat \<Rightarrow> nat \<Rightarrow> bool" where
  "has_divisor n 0 = False"
| "has_divisor n (Suc d) = (if 1 < Suc d \<and> n mod Suc d = 0 then True else has_divisor n d)"

definition is_prime :: "nat \<Rightarrow> bool" where
  "is_prime n \<longleftrightarrow> 2 \<le> n \<and> \<not> has_divisor n (n - 1)"

fun search_prime :: "nat \<Rightarrow> nat \<Rightarrow> int" where
  "search_prime 0 n = - 1"
| "search_prime (Suc fuel) n = (if is_prime n then int n else search_prime fuel (Suc n))"

definition getLargerPrime :: "int \<Rightarrow> int" where
  "getLargerPrime n = search_prime (5000 - nat n) (nat n)"

text \<open>A caller that runs a sequence of operations and stops where one does not return.\<close>

datatype operation = Insert AAKeyType nat ptr | Lookup AAKeyType nat | Delete AAKeyType nat

fun apply_operation ::
  "AssociativeArray \<Rightarrow> operation \<Rightarrow> (fault + AssociativeArray) option" where
  "apply_operation a (Insert k n v) =
     (case aaInsert a k n v of
        None \<Rightarrow> None | Some (Inl e) \<Rightarrow> Some (Inl e) | Some (Inr (a', r)) \<Rightarrow> Some (Inr a'))"
| "apply_operation a (Lookup k n) =
     (case aaLookup a k n of
        None \<Rightarrow> None | Some (Inl e) \<Rightarrow> Some (Inl e) | Some (Inr (a', r)) \<Rightarrow> Some (Inr a'))"
| "apply_operation a (Delete k n) =
     (case aaDelete a k n of
        None \<Rightarrow> None | Some (Inl e) \<Rightarrow> Some (Inl e) | Some (Inr (a', r)) \<Rightarrow> Some (Inr a'))"

fun apply_operations ::
  "AssociativeArray \<Rightarrow> operation list \<Rightarrow> (fault + AssociativeArray) option" where
  "apply_operations a [] = Some (Inr a)"
| "apply_operations a (x # xs) =
     (case apply_operation a x of
        None \<Rightarrow> None | Some (Inl e) \<Rightarrow> Some (Inl e) | Some (Inr a') \<Rightarrow> apply_operations a' xs)"

section \<open>Notions used in the statements\<close>

text \<open>The slot that an insert writes: \<open>copy\<close> is the block that \<^verbatim>\<open>strdup\<close> returned.\<close>

definition new_slot :: "AAKeyType \<Rightarrow> nat \<Rightarrow> ptr \<Rightarrow> KeyDataPair" where
  "new_slot copy n v = \<lparr>key = copy, keylen = n, valuep = v, validity = HASH_USED\<rparr>"

text \<open>Two tables that differ in \<^verbatim>\<open>insertCost\<close> at most.\<close>

definition frame_ic :: "AssociativeArray \<Rightarrow> AssociativeArray \<Rightarrow> bool" where
  "frame_ic a a' \<longleftrightarrow> a' = a\<lparr>insertCost := insertCost a'\<rparr>"

text \<open>Two tables with the same strategies and the same capacity.\<close>

definition config_eq :: "AssociativeArray \<Rightarrow> AssociativeArray \<Rightarrow> bool" where
  "config_eq a a' \<longleftrightarrow>
     hashAlgorithmPrimary a' = hashAlgorithmPrimary a \<and>
     hashAlgorithmSecondary a' = hashAlgorithmSecondary a \<and>
     hashProbe a' = hashProbe a \<and> size_aa a' = size_aa a \<and>
     length (table a') = length (table a)"

text \<open>The slot array after a delete that found its key: one slot that was in use and holds
  the key has its tag set to \<^verbatim>\<open>HASH_DELETED\<close>, and \<open>v\<close> is the value in that slot.\<close>

definition tombstoned ::
  "AssociativeArray \<Rightarrow> AAKeyType \<Rightarrow> nat \<Rightarrow> ptr \<Rightarrow> KeyDataPair list \<Rightarrow> bool" where
  "tombstoned a k n v tbl' \<longleftrightarrow>
     (\<exists>j s. table_at a j = Inr s \<and> validity s = HASH_USED \<and>
            doKeysMatch (key s) (keylen s) k n = Inr True \<and> v = valuep s \<and>
            tbl' = (table a)[nat j := s\<lparr>validity := HASH_DELETED\<rparr>])"

text \<open>The slot array after an insert that stored its key at index \<open>r\<close>: the slot was not in
  use before, and it now holds the copy that \<^verbatim>\<open>strdup\<close> made.\<close>

definition stored ::
  "AssociativeArray \<Rightarrow> AAKeyType \<Rightarrow> nat \<Rightarrow> ptr \<Rightarrow> int \<Rightarrow> KeyDataPair list \<Rightarrow> bool" where
  "stored a k n v r tbl' \<longleftrightarrow>
     (\<exists>s copy. table_at a r = Inr s \<and> validity s \<noteq> HASH_USED \<and> strdup k = Inr copy \<and>
          tbl' = (table a)[nat r := new_slot copy n v])"

text \<open>
  The traversal as the specification words it: the entries of the slots in use, in index
  order, and a visit of each in turn that stops at the first visitor status below zero.
\<close>

definition used_entries :: "AssociativeArray \<Rightarrow> (AAKeyType \<times> nat \<times> ptr) list" where
  "used_entries a =
     map (\<lambda>s. (key s, keylen s, valuep s)) (filter (\<lambda>s. validity s = HASH_USED) (table a))"

fun traverse_spec ::
  "(AAKeyType \<Rightarrow> nat \<Rightarrow> ptr \<Rightarrow> 'u \<Rightarrow> int \<times> 'u) \<Rightarrow> (AAKeyType \<times> nat \<times> ptr) list \<Rightarrow> 'u
     \<Rightarrow> int \<times> 'u" where
  "traverse_spec visitor [] userdata = (1, userdata)"
| "traverse_spec visitor ((k, n, v) # es) userdata =
     (case visitor k n v userdata of
        (r, userdata') \<Rightarrow>
          if r < 0 then (- 1, userdata') else traverse_spec visitor es userdata')"

text \<open>A visitor that records its calls in the user data and returns a fixed status.\<close>

definition log_visit ::
  "int \<Rightarrow> AAKeyType \<Rightarrow> nat \<Rightarrow> ptr \<Rightarrow> (AAKeyType \<times> nat \<times> ptr) list
     \<Rightarrow> int \<times> (AAKeyType \<times> nat \<times> ptr) list" where
  "log_visit status k n v calls = (status, calls @ [(k, n, v)])"

section \<open>Example tables\<close>

text \<open>
  The keys of the examples are C strings: the key \<open>"F"\<close> is the buffer of the bytes 70 and
  0, passed with the length 1.

  A table of capacity 2 with linear probing and the sum hash, empty and after the keys
  \<open>"F"\<close> (70) and \<open>"G"\<close> (71) were inserted.
\<close>

definition lin2_empty :: AssociativeArray where
  "lin2_empty =
     \<lparr>hashAlgorithmPrimary = HashBySum, hashNamePrimary = ''sum'',
      hashAlgorithmSecondary = HashBySum, hashNameSecondary = ''sum'',
      hashProbe = LinearProbe, probeName = ''linear'',
      table = [zero_slot, zero_slot], size_aa = 2, nEntries = 0,
      insertCost = 0, searchCost = 0, deleteCost = 0\<rparr>"

definition lin2_full :: AssociativeArray where
  "lin2_full =
     lin2_empty\<lparr>table := [new_slot [70, 0] 1 11, new_slot [71, 0] 1 22], nEntries := 2\<rparr>"

definition lin2_deleted :: AssociativeArray where
  "lin2_deleted =
     lin2_full\<lparr>table := [(new_slot [70, 0] 1 11)\<lparr>validity := HASH_DELETED\<rparr>,
                         new_slot [71, 0] 1 22],
               deleteCost := 1\<rparr>"

text \<open>
  Tables of capacity 7 with the sum hash as primary and secondary hash. With it the one-byte
  keys \<open>"F"\<close> (70) and \<open>"M"\<close> (77) hash to 0, \<open>"G"\<close> (71) to 1, \<open>"H"\<close> (72) to 2
  and \<open>"J"\<close> (74) to 4.
\<close>

definition fresh7 :: "HashProbe \<Rightarrow> string \<Rightarrow> AssociativeArray" where
  "fresh7 p name =
     \<lparr>hashAlgorithmPrimary = HashBySum, hashNamePrimary = ''sum'',
      hashAlgorithmSecondary = HashBySum, hashNameSecondary = ''sum'',
      hashProbe = p, probeName = name,
      table = replicate 7 zero_slot, size_aa = 7, nEntries = 0,
      insertCost = 0, searchCost = 0, deleteCost = 0\<rparr>"

definition lin7_empty :: AssociativeArray where
  "lin7_empty = fresh7 LinearProbe ''linear''"

definition lin7_one :: AssociativeArray where
  "lin7_one =
     lin7_empty\<lparr>table := new_slot [70, 0] 1 11 # replicate 6 zero_slot, nEntries := 1\<rparr>"

definition lin7_tomb :: AssociativeArray where
  "lin7_tomb =
     lin7_empty\<lparr>table := (new_slot [70, 0] 1 11)\<lparr>validity := HASH_DELETED\<rparr> #
                          new_slot [77, 0] 1 22 # replicate 5 zero_slot,
                nEntries := 2, insertCost := 1, deleteCost := 1\<rparr>"

definition lin7_dup :: AssociativeArray where
  "lin7_dup =
     lin7_tomb\<lparr>table := new_slot [77, 0] 1 33 # new_slot [77, 0] 1 22 # replicate 5 zero_slot,
               nEntries := 3\<rparr>"

definition quad7_empty :: AssociativeArray where
  "quad7_empty = fresh7 QuadraticProbe ''quadratic''"

definition quad7_four :: AssociativeArray where
  "quad7_four =
     quad7_empty\<lparr>table := [new_slot [70, 0] 1 11, new_slot [71, 0] 1 22,
                           new_slot [72, 0] 1 33, zero_slot, new_slot [74, 0] 1 44,
                           zero_slot, zero_slot],
                 nEntries := 4\<rparr>"

definition dbl7_empty :: AssociativeArray where
  "dbl7_empty = fresh7 DoubleHashProbe ''double''"

definition dbl7_one :: AssociativeArray where
  "dbl7_one =
     dbl7_empty\<lparr>table := new_slot [70, 0] 1 11 # replicate 6 zero_slot, nEntries := 1\<rparr>"

text \<open>
  The linear table after the three-byte key \<open>"a\0b"\<close> (the bytes 97, 0, 98; hash
  195 mod 7 = 6) was inserted into the empty table: \<^verbatim>\<open>strdup\<close> stored the two bytes
  \<open>"a\0"\<close> of it, with the key length 3.
\<close>

definition lin7_nul :: AssociativeArray where
  "lin7_nul =
     lin7_empty\<lparr>table := replicate 6 zero_slot @ [new_slot [97, 0] 3 11], nEntries := 1\<rparr>"

section \<open>Auxiliary facts\<close>

declare linearProbe_loop.simps [simp del]
declare aaIterateAction_loop.simps [simp del]
declare quadraticProbe_loop.simps [simp del]
declare doubleHashProbe_loop.simps [simp del]

subsection \<open>The probes change \<^verbatim>\<open>insertCost\<close> only\<close>

lemma frame_ic_refl: "frame_ic a a"
  by (simp add: frame_ic_def)

lemma frame_ic_upd: "frame_ic a (a\<lparr>insertCost := c\<rparr>)"
  by (simp add: frame_ic_def)

lemma frame_ic_fields:
  "frame_ic a a' \<Longrightarrow>
     table a' = table a \<and> size_aa a' = size_aa a \<and> nEntries a' = nEntries a \<and>
     searchCost a' = searchCost a \<and> deleteCost a' = deleteCost a \<and>
     hashProbe a' = hashProbe a \<and> hashAlgorithmPrimary a' = hashAlgorithmPrimary a \<and>
     hashAlgorithmSecondary a' = hashAlgorithmSecondary a"
  unfolding frame_ic_def
  by (metis AssociativeArray.select_convs AssociativeArray.surjective
      AssociativeArray.update_convs(10))

lemma frame_ic_trans: "frame_ic a b \<Longrightarrow> frame_ic b c \<Longrightarrow> frame_ic a c"
  unfolding frame_ic_def
  by (metis AssociativeArray.update_convs(10) AssociativeArray.surjective)

lemma table_at_searchCost [simp]: "table_at (a\<lparr>searchCost := c\<rparr>) i = table_at a i"
  by (simp add: table_at_def)

lemma table_at_deleteCost [simp]: "table_at (a\<lparr>deleteCost := c\<rparr>) i = table_at a i"
  by (simp add: table_at_def)

lemma table_at_insertCost [simp]: "table_at (a\<lparr>insertCost := c\<rparr>) i = table_at a i"
  by (simp add: table_at_def)

lemma table_at_table_cong: "table a' = table a \<Longrightarrow> table_at a' i = table_at a i"
  by (simp add: table_at_def)

lemma linearProbe_loop_frame:
  "linearProbe_loop a k n s c p = Inr (a', r) \<Longrightarrow> frame_ic a a'"
proof (induction a k n s c p rule: linearProbe_loop.induct)
  case (1 aarray k keyLength stopOnInvalid currentIndex probeCost)
  show ?case
    using "1.prems" "1.IH"
    apply (subst (asm) linearProbe_loop.simps)
    apply (auto simp: Let_def frame_ic_refl frame_ic_upd split: if_splits sum.splits)
    done
qed

lemma quadraticProbe_round_frame:
  "quadraticProbe_round a k n i s c t = Exit (Inr (a', r)) \<Longrightarrow> frame_ic a a'"
  "quadraticProbe_round a k n i s c t = Again (a', t') \<Longrightarrow> frame_ic a a'"
  by (auto simp: quadraticProbe_round_def Let_def frame_ic_refl frame_ic_upd
      split: if_splits sum.splits)

lemma quadraticProbe_loop_frame:
  "quadraticProbe_loop a k n i s c t = Inr (a', r) \<Longrightarrow> frame_ic a a'"
proof (induction a k n i s c t rule: quadraticProbe_loop.induct)
  case (1 tbl k keyLength index stopOnInvalid cost attempt)
  show ?case
  proof (cases "quadraticProbe_round tbl k keyLength index stopOnInvalid cost attempt")
    case (Exit x)
    with "1.prems" have "x = Inr (a', r)"
      by (subst (asm) quadraticProbe_loop.simps) simp
    with Exit show ?thesis by (simp add: quadraticProbe_round_frame(1))
  next
    case (Again x)
    obtain t2 at2 where x: "x = (t2, at2)" by (cases x)
    from "1.prems" Again x
    have "quadraticProbe_loop t2 k keyLength index stopOnInvalid cost at2 = Inr (a', r)"
      by (subst (asm) quadraticProbe_loop.simps) simp
    from "1.IH"[OF Again x[symmetric] this] have "frame_ic t2 a'" .
    moreover from Again x have "frame_ic tbl t2"
      by (simp add: quadraticProbe_round_frame(2))
    ultimately show ?thesis by (rule frame_ic_trans[rotated])
  qed
qed

lemma doubleHashProbe_round_frame:
  "doubleHashProbe_round a k n i s st t = Exit (Inr (a', r)) \<Longrightarrow> frame_ic a a'"
  "doubleHashProbe_round a k n i s st t = Again (a', t') \<Longrightarrow> frame_ic a a'"
  by (auto simp: doubleHashProbe_round_def Let_def frame_ic_refl frame_ic_upd
      split: if_splits sum.splits)

lemma doubleHashProbe_loop_frame:
  "doubleHashProbe_loop a k n i s st t = Inr (a', r) \<Longrightarrow> frame_ic a a'"
proof (induction a k n i s st t rule: doubleHashProbe_loop.induct)
  case (1 aarray k keyLength index stopOnInvalid stepSize attempt)
  show ?case
  proof (cases "doubleHashProbe_round aarray k keyLength index stopOnInvalid stepSize attempt")
    case (Exit x)
    with "1.prems" have "x = Inr (a', r)"
      by (subst (asm) doubleHashProbe_loop.simps) simp
    with Exit show ?thesis by (simp add: doubleHashProbe_round_frame(1))
  next
    case (Again x)
    obtain t2 at2 where x: "x = (t2, at2)" by (cases x)
    from "1.prems" Again x
    have "doubleHashProbe_loop t2 k keyLength index stopOnInvalid stepSize at2 = Inr (a', r)"
      by (subst (asm) doubleHashProbe_loop.simps) simp
    from "1.IH"[OF Again x[symmetric] this] have "frame_ic t2 a'" .
    moreover from Again x have "frame_ic aarray t2"
      by (simp add: doubleHashProbe_round_frame(2))
    ultimately show ?thesis by (rule frame_ic_trans[rotated])
  qed
qed

lemma call_probe_frame:
  "call_probe a k n i s c = Inr (a', r) \<Longrightarrow> frame_ic a a'"
  by (auto simp: call_probe_def linearProbe_def quadraticProbe_def doubleHashProbe_def
      split: HashProbe.splits sum.splits
      dest: linearProbe_loop_frame quadraticProbe_loop_frame doubleHashProbe_loop_frame)

subsection \<open>What the three operations change\<close>

lemma tombstoned_table_cong:
  "table a2 = table a \<Longrightarrow> tombstoned a2 k n v tbl' = tombstoned a k n v tbl'"
  by (simp add: tombstoned_def table_at_def)

lemma tombstonedI:
  "table_at a j = Inr s \<Longrightarrow> validity s = HASH_USED \<Longrightarrow>
   doKeysMatch (key s) (keylen s) k n = Inr True \<Longrightarrow>
   tombstoned a k n (valuep s) ((table a)[nat j := s\<lparr>validity := HASH_DELETED\<rparr>])"
  unfolding tombstoned_def by blast

lemma stored_table_cong:
  "table a2 = table a \<Longrightarrow> stored a2 k n v r tbl' = stored a k n v r tbl'"
  by (simp add: stored_def table_at_def)

lemma aaLookup_loop_frame:
  assumes "aaLookup_loop a k n oi c i = Some y"
  shows "\<forall>a' v. y = Inr (a', v) \<longrightarrow>
           config_eq a a' \<and> table a' = table a \<and> nEntries a' = nEntries a \<and>
           deleteCost a' = deleteCost a"
proof (induct rule: aaLookup_loop.raw_induct [OF _ assms])
  case (1 f aarray k keylen' originalIndex cost index y)
  show ?case
    using 1(2)
    by (auto simp: Let_def config_eq_def split: if_splits sum.splits option.splits
        dest!: 1(1) call_probe_frame frame_ic_fields)
qed

lemma aaDelete_loop_effect:
  assumes "aaDelete_loop a k n oi c i = Some y"
  shows "\<forall>a' v. y = Inr (a', v) \<longrightarrow>
           config_eq a a' \<and> nEntries a' = nEntries a \<and> searchCost a' = searchCost a \<and>
           ((v = 0 \<and> table a' = table a) \<or> tombstoned a k n v (table a'))"
proof (induct rule: aaDelete_loop.raw_induct [OF _ assms])
  case (1 f aarray k keylen' originalIndex cost index y)
  show ?case
  proof (intro allI impI)
    fix a' v assume y: "y = Inr (a', v)"
    show "config_eq aarray a' \<and> nEntries a' = nEntries aarray \<and>
          searchCost a' = searchCost aarray \<and>
          ((v = 0 \<and> table a' = table aarray) \<or> tombstoned aarray k keylen' v (table a'))"
    proof (cases "table_at aarray index")
      case (Inl e)
      then show ?thesis using 1(2) y by simp
    next
      case (Inr s)
      show ?thesis
      proof (cases "validity s = HASH_USED")
        case False
        then show ?thesis using 1(2) y Inr by (auto simp: config_eq_def)
      next
        case True
        show ?thesis
        proof (cases "doKeysMatch (key s) (keylen s) k keylen'")
          case (Inl e)
          then show ?thesis using 1(2) y Inr True by (simp add: Let_def)
        next
          case m: (Inr m)
          show ?thesis
          proof (cases m)
            case True
            with m Inr \<open>validity s = HASH_USED\<close> 1(2) y
            have a': "a' = aarray\<lparr>deleteCost := deleteCost aarray + 1,
                         table := (table aarray)[nat index := s\<lparr>validity := HASH_DELETED\<rparr>]\<rparr>"
              and v: "v = valuep s"
              by (auto simp: Let_def)
            have "tombstoned aarray k keylen' v (table a')"
              using tombstonedI[OF Inr \<open>validity s = HASH_USED\<close>, of k keylen'] m True a' v
              by simp
            then show ?thesis using a' by (simp add: config_eq_def)
          next
            case False
            let ?a1 = "aarray\<lparr>deleteCost := deleteCost aarray + 1\<rparr>"
            from False m Inr \<open>validity s = HASH_USED\<close> 1(2) y
            obtain a2 ix where
              p: "call_probe ?a1 k keylen' originalIndex 0 (Some cost) = Inr (a2, ix)"
              and r: "if ix = originalIndex then a' = a2 \<and> v = 0
                      else f a2 k keylen' originalIndex cost ix = Some (Inr (a', v))"
              by (auto simp: Let_def split: option.splits sum.splits if_splits)
            from call_probe_frame[OF p] have fr: "frame_ic ?a1 a2" .
            note ff = frame_ic_fields[OF fr]
            show ?thesis
            proof (cases "ix = originalIndex")
              case True
              with r ff show ?thesis by (simp add: config_eq_def)
            next
              case False
              with r have "f a2 k keylen' originalIndex cost ix = Some (Inr (a', v))" by simp
              from 1(1)[OF this, rule_format, OF refl]
              have "config_eq a2 a' \<and> nEntries a' = nEntries a2 \<and>
                    searchCost a' = searchCost a2 \<and>
                    ((v = 0 \<and> table a' = table a2) \<or> tombstoned a2 k keylen' v (table a'))" .
              moreover have "table a2 = table aarray" using ff by simp
              note tombstoned_table_cong[OF this]
              ultimately show ?thesis
                using ff by (simp add: config_eq_def)
            qed
          qed
        qed
      qed
    qed
  qed
qed

lemma aaInsert_loop_effect:
  assumes "aaInsert_loop a k n v oi c i = Some y"
  shows "\<forall>a' r. y = Inr (a', r) \<longrightarrow>
           config_eq a a' \<and> searchCost a' = searchCost a \<and> deleteCost a' = deleteCost a \<and>
           ((r = - 1 \<and> table a' = table a \<and> nEntries a' = nEntries a) \<or>
            (stored a k n v r (table a') \<and> nEntries a' = nEntries a + 1))"
proof (induct rule: aaInsert_loop.raw_induct [OF _ assms])
  case (1 f aarray k keylen' v originalIndex cost index y)
  show ?case
  proof (intro allI impI)
    fix a' r assume y: "y = Inr (a', r)"
    let ?goal = "config_eq aarray a' \<and> searchCost a' = searchCost aarray \<and>
          deleteCost a' = deleteCost aarray \<and>
          ((r = - 1 \<and> table a' = table aarray \<and> nEntries a' = nEntries aarray) \<or>
           (stored aarray k keylen' v r (table a') \<and> nEntries a' = nEntries aarray + 1))"
    show ?goal
    proof (cases "table_at aarray index")
      case (Inl e)
      then show ?thesis using 1(2) y by simp
    next
      case (Inr s)
      show ?thesis
      proof (cases "validity s = HASH_USED")
        case False
        show ?thesis
        proof (cases "strdup k")
          case (Inl e)
          with 1(2) y Inr False show ?thesis by simp
        next
          case c: (Inr copy)
          with 1(2) y Inr False
          have a': "a' = aarray\<lparr>table := (table aarray)[nat index := new_slot copy keylen' v],
                                nEntries := nEntries aarray + 1\<rparr>" and r: "r = index"
            by (auto simp: new_slot_def)
          have "stored aarray k keylen' v r (table a')"
            unfolding stored_def using Inr False a' r c by auto
          then show ?thesis using a' by (simp add: config_eq_def)
        qed
      next
        case True
        show ?thesis
        proof (cases "doKeysMatch (key s) (keylen s) k keylen'")
          case (Inl e)
          then show ?thesis using 1(2) y Inr True by (simp add: Let_def)
        next
          case m: (Inr m)
          show ?thesis
          proof (cases m)
            case True
            with m Inr \<open>validity s = HASH_USED\<close> 1(2) y
            show ?thesis by (auto simp: config_eq_def)
          next
            case False
            from False m Inr \<open>validity s = HASH_USED\<close> 1(2) y
            obtain a2 ix where
              p: "call_probe aarray k keylen' originalIndex 0 (Some (cost + 1)) = Inr (a2, ix)"
              and r: "if ix = originalIndex then a' = a2 \<and> r = - 1
                      else f a2 k keylen' v originalIndex (cost + 1) ix = Some (Inr (a', r))"
              by (auto simp: Let_def split: option.splits sum.splits if_splits)
            from call_probe_frame[OF p] have fr: "frame_ic aarray a2" .
            note ff = frame_ic_fields[OF fr]
            show ?thesis
            proof (cases "ix = originalIndex")
              case True
              with r ff show ?thesis by (simp add: config_eq_def)
            next
              case False
              with r have "f a2 k keylen' v originalIndex (cost + 1) ix = Some (Inr (a', r))"
                by simp
              from 1(1)[OF this, rule_format, OF refl]
              have "config_eq a2 a' \<and> searchCost a' = searchCost a2 \<and>
                    deleteCost a' = deleteCost a2 \<and>
                    ((r = - 1 \<and> table a' = table a2 \<and> nEntries a' = nEntries a2) \<or>
                     (stored a2 k keylen' v r (table a') \<and> nEntries a' = nEntries a2 + 1))" .
              moreover have "table a2 = table aarray" using ff by simp
              note stored_table_cong[OF this]
              ultimately show ?thesis
                using ff by (simp add: config_eq_def)
            qed
          qed
        qed
      qed
    qed
  qed
qed

lemma config_eq_refl: "config_eq a a"
  by (simp add: config_eq_def)

lemma config_eq_trans: "config_eq a b \<Longrightarrow> config_eq b c \<Longrightarrow> config_eq a c"
  by (simp add: config_eq_def)

lemma aaInsert_effect:
  assumes "aaInsert a k n v = Some (Inr (a', r))"
  shows "config_eq a a' \<and> searchCost a' = searchCost a \<and> deleteCost a' = deleteCost a \<and>
         ((r = - 1 \<and> table a' = table a \<and> nEntries a' = nEntries a) \<or>
          (stored a k n v r (table a') \<and> nEntries a' = nEntries a + 1))"
proof (cases "size_aa a \<le> nEntries a")
  case True
  with assms show ?thesis by (simp add: aaInsert_def config_eq_def)
next
  case False
  with assms obtain h where "aaInsert_loop a k n v h 0 h = Some (Inr (a', r))"
    by (auto simp: aaInsert_def split: sum.splits)
  from aaInsert_loop_effect[OF this] show ?thesis by simp
qed

lemma aaLookup_frame:
  assumes "aaLookup a k n = Some (Inr (a', v))"
  shows "config_eq a a' \<and> table a' = table a \<and> nEntries a' = nEntries a \<and>
         deleteCost a' = deleteCost a"
proof -
  from assms obtain h where "aaLookup_loop a k n h 0 h = Some (Inr (a', v))"
    by (auto simp: aaLookup_def split: sum.splits)
  from aaLookup_loop_frame[OF this] show ?thesis by simp
qed

lemma aaDelete_effect:
  assumes "aaDelete a k n = Some (Inr (a', v))"
  shows "config_eq a a' \<and> nEntries a' = nEntries a \<and> searchCost a' = searchCost a \<and>
         ((v = 0 \<and> table a' = table a) \<or> tombstoned a k n v (table a'))"
proof -
  from assms obtain h where "aaDelete_loop a k n h 0 h = Some (Inr (a', v))"
    by (auto simp: aaDelete_def split: sum.splits)
  from aaDelete_loop_effect[OF this] show ?thesis by simp
qed

lemma apply_operation_count:
  assumes "apply_operation a x = Some (Inr a')"
  shows "size_aa a' = size_aa a \<and> nEntries a \<le> nEntries a'"
proof (cases x)
  case (Insert k n v)
  with assms obtain r where "aaInsert a k n v = Some (Inr (a', r))"
    by (auto split: option.splits sum.splits)
  from aaInsert_effect[OF this] show ?thesis by (auto simp: config_eq_def)
next
  case (Lookup k n)
  with assms obtain r where "aaLookup a k n = Some (Inr (a', r))"
    by (auto split: option.splits sum.splits)
  from aaLookup_frame[OF this] show ?thesis by (auto simp: config_eq_def)
next
  case (Delete k n)
  with assms obtain r where "aaDelete a k n = Some (Inr (a', r))"
    by (auto split: option.splits sum.splits)
  from aaDelete_effect[OF this] show ?thesis by (auto simp: config_eq_def)
qed

lemma apply_operations_count:
  "apply_operations a xs = Some (Inr a') \<Longrightarrow>
     size_aa a' = size_aa a \<and> nEntries a \<le> nEntries a'"
proof (induction xs arbitrary: a)
  case Nil
  then show ?case by simp
next
  case (Cons x xs)
  then obtain a1 where 1: "apply_operation a x = Some (Inr a1)"
    and 2: "apply_operations a1 xs = Some (Inr a')"
    by (auto split: option.splits sum.splits)
  from apply_operation_count[OF 1] Cons.IH[OF 2] show ?case by simp
qed

subsection \<open>Traversal\<close>

lemma aaIterateAction_loop_spec:
  "0 \<le> i \<Longrightarrow> size_aa a = int (length (table a)) \<Longrightarrow>
   aaIterateAction_loop a f u i =
     Inr (traverse_spec f
           (map (\<lambda>s. (key s, keylen s, valuep s))
              (filter (\<lambda>s. validity s = HASH_USED) (drop (nat i) (table a)))) u)"
proof (induction a f u i rule: aaIterateAction_loop.induct)
  case (1 aarray userfunction userdata i)
  show ?case
  proof (cases "i < size_aa aarray")
    case False
    with 1(4) show ?thesis
      by (subst aaIterateAction_loop.simps) simp
  next
    case True
    with 1(3,4) have lt: "nat i < length (table aarray)" by simp
    let ?s = "table aarray ! nat i"
    have at: "table_at aarray i = Inr ?s"
      using 1(3) lt by (simp add: table_at_def)
    have dr: "drop (nat i) (table aarray) = ?s # drop (nat (i + 1)) (table aarray)"
      using lt 1(3) by (simp add: Cons_nth_drop_Suc nat_add_distrib)
    show ?thesis
    proof (cases "validity ?s = HASH_USED")
      case False
      from 1(2)[OF True at False] 1(3,4)
      have "aaIterateAction_loop aarray userfunction userdata (i + 1) =
            Inr (traverse_spec userfunction
              (map (\<lambda>s. (key s, keylen s, valuep s))
                (filter (\<lambda>s. validity s = HASH_USED) (drop (nat (i + 1)) (table aarray))))
              userdata)" by simp
      then show ?thesis
        using True at False dr
        by (subst aaIterateAction_loop.simps) simp
    next
      case used: True
      obtain r u' where call: "userfunction (key ?s) (keylen ?s) (valuep ?s) userdata = (r, u')"
        by (cases "userfunction (key ?s) (keylen ?s) (valuep ?s) userdata")
      show ?thesis
      proof (cases "r < 0")
        case True
        then show ?thesis
          using \<open>i < size_aa aarray\<close> at used dr call
          by (subst aaIterateAction_loop.simps) simp
      next
        case False
        from 1(1)[OF \<open>i < size_aa aarray\<close> at used call[symmetric] False] 1(3,4)
        have "aaIterateAction_loop aarray userfunction u' (i + 1) =
            Inr (traverse_spec userfunction
              (map (\<lambda>s. (key s, keylen s, valuep s))
                (filter (\<lambda>s. validity s = HASH_USED) (drop (nat (i + 1)) (table aarray))))
              u')" by simp
        then show ?thesis
          using \<open>i < size_aa aarray\<close> at used dr call False
          by (subst aaIterateAction_loop.simps) simp
      qed
    qed
  qed
qed

subsection \<open>Probes that run until the attempt counter leaves the range of \<^verbatim>\<open>int\<close>\<close>

lemma c_rem_nonneg: "0 \<le> a \<Longrightarrow> 0 < b \<Longrightarrow> c_rem a b = a mod b"
  by (cases "a = 0") (simp_all add: c_rem_def)

lemma square_mod_7: "(a * a) mod 7 \<in> {0, 1, 2, 4::int}"
proof -
  define m where "m = a mod 7"
  have eq: "(a * a) mod 7 = (m * m) mod 7"
    unfolding m_def by (simp add: mod_mult_eq)
  have "0 \<le> m" "m < 7" unfolding m_def by simp_all
  then have "m = 0 \<or> m = 1 \<or> m = 2 \<or> m = 3 \<or> m = 4 \<or> m = 5 \<or> m = 6" by arith
  then show ?thesis unfolding eq by (elim disjE) simp_all
qed

lemma quad7_four_rejects:
  assumes "j \<in> {0, 1, 2, 4::int}"
  shows "\<exists>s. table_at quad7_four j = Inr s \<and> validity s = HASH_USED \<and>
             doKeysMatch (key s) (keylen s) [77, 0] 1 = Inr False"
  using assms
  by (auto simp: table_at_def quad7_four_def quad7_empty_def fresh7_def new_slot_def
      doKeysMatch_def memcmp_eq_def)

lemma square_int_ok:
  assumes "1 \<le> att" and "att \<le> 46340"
  shows "int_ok (att * att) \<and> int_ok (0 + att * att) \<and> int_ok (att + 1)"
proof -
  have "att * att \<le> 46340 * 46340"
    using assms by (intro mult_mono) simp_all
  then have a: "att * att \<le> 2147395600" by simp
  have b: "0 \<le> att * att" by simp
  show ?thesis
    unfolding int_ok_def INT_MAX_def using a b assms by (intro conjI; linarith)
qed

lemma quad7_four_round:
  assumes "table tbl = table quad7_four" and "size_aa tbl = 7"
    and "1 \<le> att" and "att \<le> 46340"
  shows "quadraticProbe_round tbl [77, 0] 1 0 0 c att =
         Again (tbl\<lparr>insertCost := insertCost tbl + 1\<rparr>, att + 1)"
proof -
  have "c_rem (0 + att * att) (size_aa tbl) = (att * att) mod 7"
    using assms(2) by (simp add: c_rem_nonneg)
  with square_mod_7[of att]
  have "c_rem (0 + att * att) (size_aa tbl) \<in> {0, 1, 2, 4}" by simp
  from quad7_four_rejects[OF this] obtain sl where
    sl: "table_at quad7_four (c_rem (0 + att * att) (size_aa tbl)) = Inr sl"
      "validity sl = HASH_USED" "doKeysMatch (key sl) (keylen sl) [77, 0] 1 = Inr False"
    by blast
  have "table_at tbl (c_rem (0 + att * att) (size_aa tbl)) = Inr sl"
    using sl(1) table_at_table_cong[OF assms(1)] by simp
  then show ?thesis
    using sl(2,3) assms(2) square_int_ok[OF assms(3,4)]
    by (simp add: quadraticProbe_round_def Let_def)
qed

lemma quad7_four_rounds:
  "table tbl = table quad7_four \<Longrightarrow> size_aa tbl = 7 \<Longrightarrow> 1 \<le> att \<Longrightarrow>
   att + int n \<le> 46341 \<Longrightarrow>
   quadraticProbe_rounds n tbl [77, 0] 1 0 0 c att =
   Again (tbl\<lparr>insertCost := insertCost tbl + int n\<rparr>, att + int n)"
proof (induction n arbitrary: tbl att)
  case 0
  then show ?case by simp
next
  case (Suc n)
  let ?t1 = "tbl\<lparr>insertCost := insertCost tbl + 1\<rparr>"
  have le: "att \<le> 46340" using Suc.prems(4) by simp
  have "quadraticProbe_rounds (Suc n) tbl [77, 0] 1 0 0 c att =
        quadraticProbe_rounds n ?t1 [77, 0] 1 0 0 c (att + 1)"
    using quad7_four_round[OF Suc.prems(1,2,3) le, of c] by simp
  also have "\<dots> = Again (?t1\<lparr>insertCost := insertCost ?t1 + int n\<rparr>, att + 1 + int n)"
    using Suc.prems by (intro Suc.IH) simp_all
  also have "insertCost ?t1 + int n = insertCost tbl + int (Suc n)" by simp
  also have "att + 1 + int n = att + int (Suc n)" by simp
  finally show ?case by simp
qed

lemma quadraticProbe_rounds_loop:
  "quadraticProbe_rounds n tbl k kl i s c att = Again (tbl', att') \<Longrightarrow>
   quadraticProbe_loop tbl k kl i s c att = quadraticProbe_loop tbl' k kl i s c att'"
proof (induction n arbitrary: tbl att)
  case 0
  then show ?case by simp
next
  case (Suc n)
  show ?case
  proof (cases "quadraticProbe_round tbl k kl i s c att")
    case (Exit r)
    with Suc.prems show ?thesis by simp
  next
    case (Again x)
    obtain t2 a2 where x: "x = (t2, a2)" by (cases x)
    from Suc.prems Again x
    have "quadraticProbe_rounds n t2 k kl i s c a2 = Again (tbl', att')" by simp
    from Suc.IH[OF this]
    have "quadraticProbe_loop t2 k kl i s c a2 = quadraticProbe_loop tbl' k kl i s c att'" .
    then show ?thesis
      using Again x by (subst quadraticProbe_loop.simps) simp
  qed
qed

lemma quad_probe_overflow:
  "quadraticProbe quad7_four [77, 0] 1 0 0 c = Inl IntegerOverflow"
proof -
  have t: "table quad7_four = table quad7_four" "size_aa quad7_four = 7"
    by (simp_all add: quad7_four_def quad7_empty_def fresh7_def)
  have "quadraticProbe_rounds 46340 quad7_four [77, 0] 1 0 0 c 1 =
        Again (quad7_four\<lparr>insertCost := insertCost quad7_four + int 46340\<rparr>, 1 + int 46340)"
    by (rule quad7_four_rounds[OF t]) simp_all
  from quadraticProbe_rounds_loop[OF this]
  have "quadraticProbe_loop quad7_four [77, 0] 1 0 0 c 1 =
        quadraticProbe_loop (quad7_four\<lparr>insertCost := insertCost quad7_four + int 46340\<rparr>)
          [77, 0] 1 0 0 c 46341"
    by simp
  also have "\<dots> = Inl IntegerOverflow"
    by (subst quadraticProbe_loop.simps)
       (simp add: quadraticProbe_round_def int_ok_def INT_MAX_def)
  finally show ?thesis by (simp add: quadraticProbe_def)
qed

lemma slot_70_rejects_77:
  "validity (new_slot [70, 0] 1 11) = HASH_USED \<and>
   doKeysMatch (key (new_slot [70, 0] 1 11)) (keylen (new_slot [70, 0] 1 11)) [77, 0] 1
     = Inr False"
  by (simp add: new_slot_def doKeysMatch_def memcmp_eq_def)

lemma dbl7_one_round:
  assumes "table tbl = table dbl7_one" and "size_aa tbl = 7"
    and "0 \<le> att" and "att < 2147483647"
  shows "doubleHashProbe_round tbl [77, 0] 1 0 0 0 att =
         Again (tbl\<lparr>insertCost := insertCost tbl + 1\<rparr>, att + 1)"
proof -
  have i0: "c_rem (0 + att * 0) (size_aa tbl) = 0"
    by (simp add: c_rem_def)
  have "table_at dbl7_one 0 = Inr (new_slot [70, 0] 1 11)"
    by (simp add: table_at_def dbl7_one_def dbl7_empty_def fresh7_def)
  then have "table_at tbl 0 = Inr (new_slot [70, 0] 1 11)"
    using table_at_table_cong[OF assms(1)] by simp
  moreover have "int_ok (att + 1)"
    using assms(3,4) by (simp add: int_ok_def INT_MAX_def)
  moreover have "int_ok 0" by (simp add: int_ok_def INT_MAX_def)
  ultimately show ?thesis
    using slot_70_rejects_77 assms(2) i0
    by (simp add: doubleHashProbe_round_def Let_def)
qed

lemma dbl7_one_last_round:
  assumes "table tbl = table dbl7_one" and "size_aa tbl = 7"
  shows "doubleHashProbe_round tbl [77, 0] 1 0 0 0 2147483647 = Exit (Inl IntegerOverflow)"
proof -
  have i0: "c_rem (0 + 2147483647 * 0) (size_aa tbl) = 0"
    by (simp add: c_rem_def)
  have "table_at dbl7_one 0 = Inr (new_slot [70, 0] 1 11)"
    by (simp add: table_at_def dbl7_one_def dbl7_empty_def fresh7_def)
  then have "table_at tbl 0 = Inr (new_slot [70, 0] 1 11)"
    using table_at_table_cong[OF assms(1)] by simp
  moreover have "\<not> int_ok (2147483647 + 1)"
    by (simp add: int_ok_def INT_MAX_def)
  moreover have "int_ok 0" by (simp add: int_ok_def INT_MAX_def)
  ultimately show ?thesis
    using slot_70_rejects_77 assms(2) i0
    by (simp add: doubleHashProbe_round_def Let_def)
qed

lemma dbl7_one_rounds:
  "table tbl = table dbl7_one \<Longrightarrow> size_aa tbl = 7 \<Longrightarrow> 0 \<le> att \<Longrightarrow>
   att + int n \<le> 2147483647 \<Longrightarrow>
   doubleHashProbe_rounds n tbl [77, 0] 1 0 0 0 att =
   Again (tbl\<lparr>insertCost := insertCost tbl + int n\<rparr>, att + int n)"
proof (induction n arbitrary: tbl att)
  case 0
  then show ?case by simp
next
  case (Suc n)
  let ?t1 = "tbl\<lparr>insertCost := insertCost tbl + 1\<rparr>"
  have lt: "att < 2147483647" using Suc.prems(4) by simp
  have "doubleHashProbe_rounds (Suc n) tbl [77, 0] 1 0 0 0 att =
        doubleHashProbe_rounds n ?t1 [77, 0] 1 0 0 0 (att + 1)"
    using dbl7_one_round[OF Suc.prems(1,2,3) lt] by simp
  also have "\<dots> = Again (?t1\<lparr>insertCost := insertCost ?t1 + int n\<rparr>, att + 1 + int n)"
    using Suc.prems by (intro Suc.IH) simp_all
  also have "insertCost ?t1 + int n = insertCost tbl + int (Suc n)" by simp
  also have "att + 1 + int n = att + int (Suc n)" by simp
  finally show ?case by simp
qed

lemma doubleHashProbe_rounds_loop:
  "doubleHashProbe_rounds n tbl k kl i s st att = Again (tbl', att') \<Longrightarrow>
   doubleHashProbe_loop tbl k kl i s st att = doubleHashProbe_loop tbl' k kl i s st att'"
proof (induction n arbitrary: tbl att)
  case 0
  then show ?case by simp
next
  case (Suc n)
  show ?case
  proof (cases "doubleHashProbe_round tbl k kl i s st att")
    case (Exit r)
    with Suc.prems show ?thesis by simp
  next
    case (Again x)
    obtain t2 a2 where x: "x = (t2, a2)" by (cases x)
    from Suc.prems Again x
    have "doubleHashProbe_rounds n t2 k kl i s st a2 = Again (tbl', att')" by simp
    from Suc.IH[OF this]
    have "doubleHashProbe_loop t2 k kl i s st a2 = doubleHashProbe_loop tbl' k kl i s st att'" .
    then show ?thesis
      using Again x by (subst doubleHashProbe_loop.simps) simp
  qed
qed

lemma dbl_probe_overflow:
  "doubleHashProbe dbl7_one [77, 0] 1 0 0 c = Inl IntegerOverflow"
proof -
  have t: "table dbl7_one = table dbl7_one" "size_aa dbl7_one = 7"
    by (simp_all add: dbl7_one_def dbl7_empty_def fresh7_def)
  have h: "call_hash (hashAlgorithmSecondary dbl7_one) [77, 0] 1 (size_aa dbl7_one) = Inr 0"
    by code_simp
  have "doubleHashProbe_rounds 2147483647 dbl7_one [77, 0] 1 0 0 0 0 =
        Again (dbl7_one\<lparr>insertCost := insertCost dbl7_one + int 2147483647\<rparr>,
               0 + int 2147483647)"
    by (rule dbl7_one_rounds[OF t]) simp_all
  from doubleHashProbe_rounds_loop[OF this]
  have "doubleHashProbe_loop dbl7_one [77, 0] 1 0 0 0 0 =
        doubleHashProbe_loop (dbl7_one\<lparr>insertCost := insertCost dbl7_one + int 2147483647\<rparr>)
          [77, 0] 1 0 0 0 2147483647"
    by simp
  also have "\<dots> = Inl IntegerOverflow"
    using dbl7_one_last_round[of "dbl7_one\<lparr>insertCost := insertCost dbl7_one + int 2147483647\<rparr>"]
      t(2)
    by (subst doubleHashProbe_loop.simps) simp
  finally show ?thesis using h by (simp add: doubleHashProbe_def)
qed

lemma aaInsert_loop_probe_fault:
  "table_at a i = Inr s \<Longrightarrow> validity s = HASH_USED \<Longrightarrow>
   doKeysMatch (key s) (keylen s) k n = Inr False \<Longrightarrow>
   call_probe a k n oi 0 (Some (c + 1)) = Inl e \<Longrightarrow>
   aaInsert_loop a k n v oi c i = Some (Inl e)"
  by (subst aaInsert_loop.simps) simp

lemma quad_insert_overflow: "aaInsert quad7_four [77, 0] 1 55 = Some (Inl IntegerOverflow)"
proof -
  have h: "call_hash (hashAlgorithmPrimary quad7_four) [77, 0] 1 (size_aa quad7_four) = Inr 0"
    by code_simp
  have n: "\<not> size_aa quad7_four \<le> nEntries quad7_four"
    by (simp add: quad7_four_def quad7_empty_def fresh7_def)
  have at: "table_at quad7_four 0 = Inr (new_slot [70, 0] 1 11)"
    by (simp add: table_at_def quad7_four_def quad7_empty_def fresh7_def)
  have p: "call_probe quad7_four [77, 0] 1 0 0 (Some (0 + 1)) = Inl IntegerOverflow"
    using quad_probe_overflow
    by (simp add: call_probe_def quad7_four_def quad7_empty_def fresh7_def)
  have "aaInsert quad7_four [77, 0] 1 55 = aaInsert_loop quad7_four [77, 0] 1 55 0 0 0"
    using n h by (simp add: aaInsert_def)
  also have "\<dots> = Some (Inl IntegerOverflow)"
    using slot_70_rejects_77 by (intro aaInsert_loop_probe_fault[OF at _ _ p]) simp_all
  finally show ?thesis .
qed

lemma dbl_insert_overflow: "aaInsert dbl7_one [77, 0] 1 22 = Some (Inl IntegerOverflow)"
proof -
  have h: "call_hash (hashAlgorithmPrimary dbl7_one) [77, 0] 1 (size_aa dbl7_one) = Inr 0"
    by code_simp
  have n: "\<not> size_aa dbl7_one \<le> nEntries dbl7_one"
    by (simp add: dbl7_one_def dbl7_empty_def fresh7_def)
  have at: "table_at dbl7_one 0 = Inr (new_slot [70, 0] 1 11)"
    by (simp add: table_at_def dbl7_one_def dbl7_empty_def fresh7_def)
  have p: "call_probe dbl7_one [77, 0] 1 0 0 (Some (0 + 1)) = Inl IntegerOverflow"
    using dbl_probe_overflow
    by (simp add: call_probe_def dbl7_one_def dbl7_empty_def fresh7_def)
  have "aaInsert dbl7_one [77, 0] 1 22 = aaInsert_loop dbl7_one [77, 0] 1 22 0 0 0"
    using n h by (simp add: aaInsert_def)
  also have "\<dots> = Some (Inl IntegerOverflow)"
    using slot_70_rejects_77 by (intro aaInsert_loop_probe_fault[OF at _ _ p]) simp_all
  finally show ?thesis .
qed

lemma quad7_seven_rounds:
  "quadraticProbe_rounds 7 quad7_four [77, 0] 1 0 0 (Some 1) 1 =
     Again (quad7_four\<lparr>insertCost := 7\<rparr>, 8)"
  by code_simp

lemma quad7_all_rounds:
  "quadraticProbe_rounds 46340 quad7_four [77, 0] 1 0 0 (Some 1) 1 =
     Again (quad7_four\<lparr>insertCost := 46340\<rparr>, 46341)"
proof -
  have t: "table quad7_four = table quad7_four" "size_aa quad7_four = 7"
    by (simp_all add: quad7_four_def quad7_empty_def fresh7_def)
  have c: "insertCost quad7_four = 0"
    by (simp add: quad7_four_def quad7_empty_def fresh7_def)
  have "quadraticProbe_rounds 46340 quad7_four [77, 0] 1 0 0 (Some 1) 1 =
        Again (quad7_four\<lparr>insertCost := insertCost quad7_four + int 46340\<rparr>, 1 + int 46340)"
    by (rule quad7_four_rounds[OF t]) simp_all
  then show ?thesis by (simp add: c)
qed

lemma dbl7_seven_rounds:
  "doubleHashProbe_rounds 7 dbl7_one [77, 0] 1 0 0 0 0 = Again (dbl7_one\<lparr>insertCost := 7\<rparr>, 7)"
  by code_simp

lemma dbl7_all_rounds:
  "doubleHashProbe_rounds 2147483647 dbl7_one [77, 0] 1 0 0 0 0 =
     Again (dbl7_one\<lparr>insertCost := 2147483647\<rparr>, 2147483647)"
proof -
  have t: "table dbl7_one = table dbl7_one" "size_aa dbl7_one = 7"
    by (simp_all add: dbl7_one_def dbl7_empty_def fresh7_def)
  have c: "insertCost dbl7_one = 0"
    by (simp add: dbl7_one_def dbl7_empty_def fresh7_def)
  have "doubleHashProbe_rounds 2147483647 dbl7_one [77, 0] 1 0 0 0 0 =
        Again (dbl7_one\<lparr>insertCost := insertCost dbl7_one + int 2147483647\<rparr>,
               0 + int 2147483647)"
    by (rule dbl7_one_rounds[OF t]) simp_all
  then show ?thesis by (simp add: c)
qed

subsection \<open>Keys with a NUL byte\<close>

lemma takeWhile_short:
  assumes "x \<in> set (take m xs)" and "\<not> P x"
  shows "length (takeWhile P xs) < m"
proof -
  have "takeWhile P xs = takeWhile P (take m xs @ drop m xs)" by simp
  also have "\<dots> = takeWhile P (take m xs)"
    using assms by (rule takeWhile_append1)
  finally have e: "takeWhile P xs = takeWhile P (take m xs)" .
  have "takeWhile P (take m xs) \<noteq> take m xs"
    using assms by (auto simp: takeWhile_eq_all_conv)
  then have "length (takeWhile P (take m xs)) < length (take m xs)"
    by (metis length_takeWhile_le le_neq_implies_less takeWhile_eq_take length_take
        take_all_iff order_refl)
  then show ?thesis using e by simp
qed

text \<open>A key with a NUL byte before its last byte is stored too short for \<^verbatim>\<open>memcmp\<close> over
  \<^verbatim>\<open>keylen\<close> bytes.\<close>

lemma strdup_short_copy:
  assumes "0 \<in> set (take (n - 1) k)" and "strdup k = Inr copy"
  shows "length copy < n \<and> doKeysMatch copy n k n = Inl BufferOverread"
proof -
  from assms(1) have "length (takeWhile (\<lambda>b. b \<noteq> 0) k) < n - 1"
    by (rule takeWhile_short) simp
  moreover from assms(2) have "copy = takeWhile (\<lambda>b. b \<noteq> 0) k @ [0]"
    by (auto simp: strdup_def split: if_splits)
  ultimately have "length copy < n" by simp
  then show ?thesis by (simp add: doKeysMatch_def memcmp_eq_def)
qed

section \<open>The claims\<close>

lemma lin2_full_reached:
  "aaCreateAssociativeArray getLargerPrime 2 ''linear'' ''sum'' ''sum'' = Some lin2_empty \<and>
   apply_operations lin2_empty [Insert [70, 0] 1 11, Insert [71, 0] 1 22]
     = Some (Inr lin2_full)"
  by code_simp

text \<open>
  Claim C6. An insert into a table whose entry count equals its capacity returns \<open>-1\<close> at
  once: the table that comes back is the table that went in, so no slot, no counter and no
  cost changed, and no hash or probe was called (a probe would have charged a cost).
\<close>
theorem insert_into_full_table:
  "nEntries aarray = size_aa aarray \<Longrightarrow>
   aaInsert aarray k keylen' v = Some (Inr (aarray, - 1))"
  by (simp add: aaInsert_def)

theorem insert_into_full_table_witness:
  "nEntries lin2_full = size_aa lin2_full \<and>
   aaInsert lin2_full [72, 0] 1 33 = Some (Inr (lin2_full, - 1))"
proof -
  have h: "nEntries lin2_full = size_aa lin2_full"
    by (simp add: lin2_full_def lin2_empty_def)
  from insert_into_full_table[OF h] h show ?thesis by simp
qed

text \<open>
  Claim C9. Along every sequence of operations that return, the entry count does not
  decrease; a delete leaves it as it is, also when it turns a slot into a tombstone; and
  once the entry count has reached the capacity, every later insert returns \<open>-1\<close> and
  leaves the table as it is, whatever was deleted in between.
\<close>
theorem entry_count_never_decreases:
  assumes "apply_operations a xs = Some (Inr a')"
  shows "nEntries a \<le> nEntries a' \<and>
         (\<forall>k n a1. apply_operation a (Delete k n) = Some (Inr a1) \<longrightarrow>
            nEntries a1 = nEntries a) \<and>
         (size_aa a \<le> nEntries a \<longrightarrow>
            (\<forall>k n v. aaInsert a' k n v = Some (Inr (a', - 1))))"
proof (intro conjI allI impI)
  show "nEntries a \<le> nEntries a'"
    using apply_operations_count[OF assms] by simp
next
  fix k n a1 assume "apply_operation a (Delete k n) = Some (Inr a1)"
  then obtain r where "aaDelete a k n = Some (Inr (a1, r))"
    by (auto split: option.splits sum.splits)
  from aaDelete_effect[OF this] show "nEntries a1 = nEntries a" by simp
next
  fix k n v assume "size_aa a \<le> nEntries a"
  with apply_operations_count[OF assms] have "size_aa a' \<le> nEntries a'" by simp
  then show "aaInsert a' k n v = Some (Inr (a', - 1))" by (simp add: aaInsert_def)
qed

theorem entry_count_never_decreases_witness:
  "apply_operations lin2_full [Delete [70, 0] 1] = Some (Inr lin2_deleted) \<and>
   nEntries lin2_full \<le> nEntries lin2_deleted \<and>
   apply_operation lin2_full (Delete [70, 0] 1) = Some (Inr lin2_deleted) \<and>
   nEntries lin2_deleted = nEntries lin2_full \<and>
   size_aa lin2_full \<le> nEntries lin2_full \<and>
   aaInsert lin2_deleted [72, 0] 1 33 = Some (Inr (lin2_deleted, - 1))"
proof -
  have run: "apply_operations lin2_full [Delete [70, 0] 1] = Some (Inr lin2_deleted)"
    by code_simp
  have one: "apply_operation lin2_full (Delete [70, 0] 1) = Some (Inr lin2_deleted)"
    by code_simp
  have full: "size_aa lin2_full \<le> nEntries lin2_full"
    by (simp add: lin2_full_def lin2_empty_def)
  from entry_count_never_decreases[OF run] one full run show ?thesis
    by blast
qed

text \<open>
  Claim C10. A delete that returns either leaves the slot array as it is (and returns
  \<^verbatim>\<open>NULL\<close>), or it found its key in a slot in use, returns the value of that slot, and
  changes the slot array at that slot only, in the validity tag only: key bytes, key length
  and value are still in the slot, which now is \<^verbatim>\<open>HASH_DELETED\<close>.
\<close>
theorem delete_changes_validity_only:
  assumes "aaDelete a k n = Some (Inr (a', v))"
  shows "(v = 0 \<and> table a' = table a) \<or>
         (\<exists>j s. table_at a j = Inr s \<and> validity s = HASH_USED \<and>
                doKeysMatch (key s) (keylen s) k n = Inr True \<and>
                v = valuep s \<and>
                table a' = (table a)[nat j := s\<lparr>validity := HASH_DELETED\<rparr>] \<and>
                table_at a' j =
                  Inr \<lparr>key = key s, keylen = keylen s, valuep = valuep s,
                       validity = HASH_DELETED\<rparr>)"
proof -
  from aaDelete_effect[OF assms]
  have "(v = 0 \<and> table a' = table a) \<or> tombstoned a k n v (table a')" by simp
  then show ?thesis
  proof
    assume "v = 0 \<and> table a' = table a"
    then show ?thesis by simp
  next
    assume "tombstoned a k n v (table a')"
    then obtain j s where js: "table_at a j = Inr s" "validity s = HASH_USED"
        "doKeysMatch (key s) (keylen s) k n = Inr True" "v = valuep s"
        "table a' = (table a)[nat j := s\<lparr>validity := HASH_DELETED\<rparr>]"
      unfolding tombstoned_def by blast
    from js(1) have rng: "0 \<le> j" "j < int (length (table a))"
      by (auto simp: table_at_def split: if_splits)
    have "table_at a' j = Inr (s\<lparr>validity := HASH_DELETED\<rparr>)"
      using rng js(5) by (simp add: table_at_def)
    moreover have "s\<lparr>validity := HASH_DELETED\<rparr> =
        \<lparr>key = key s, keylen = keylen s, valuep = valuep s, validity = HASH_DELETED\<rparr>"
      by simp
    ultimately show ?thesis using js by auto
  qed
qed

theorem delete_changes_validity_only_witness:
  "aaDelete lin2_full [70, 0] 1 = Some (Inr (lin2_deleted, 11)) \<and>
   table_at lin2_full 0 = Inr (new_slot [70, 0] 1 11) \<and>
   table_at lin2_deleted 0 =
     Inr \<lparr>key = [70, 0], keylen = 1, valuep = 11, validity = HASH_DELETED\<rparr>"
proof -
  have d: "aaDelete lin2_full [70, 0] 1 = Some (Inr (lin2_deleted, 11))"
    by code_simp
  from delete_changes_validity_only[OF d]
  have "\<exists>j s. table_at lin2_full j = Inr s \<and>
          table_at lin2_deleted j =
            Inr \<lparr>key = key s, keylen = keylen s, valuep = valuep s, validity = HASH_DELETED\<rparr>"
    by auto
  moreover have "table_at lin2_full 0 = Inr (new_slot [70, 0] 1 11)"
    by (simp add: table_at_def lin2_full_def lin2_empty_def)
  moreover have "table_at lin2_deleted 0 =
     Inr \<lparr>key = [70, 0], keylen = 1, valuep = 11, validity = HASH_DELETED\<rparr>"
    by (simp add: table_at_def lin2_deleted_def lin2_full_def lin2_empty_def new_slot_def)
  ultimately show ?thesis using d by simp
qed

text \<open>
  Claim C8. On a table whose slot array has \<^verbatim>\<open>size\<close> slots, the traversal is the visit, in
  index order, of exactly the slots in use, each with its stored key, key length and value;
  it stops with \<open>-1\<close> at the first visitor status below zero and returns \<open>1\<close> after the
  last slot otherwise. No strategy of the table enters.
\<close>
theorem traverse_visits_used_slots_in_order:
  "size_aa a = int (length (table a)) \<Longrightarrow>
   aaIterateAction a visitor userdata = Inr (traverse_spec visitor (used_entries a) userdata)"
  using aaIterateAction_loop_spec[of 0 a visitor userdata]
  by (simp add: aaIterateAction_def used_entries_def)

theorem traverse_visits_used_slots_in_order_witness:
  "size_aa lin7_tomb = int (length (table lin7_tomb)) \<and>
   aaIterateAction lin7_tomb (log_visit 0) [] = Inr (1, [([77, 0], 1, 22)]) \<and>
   size_aa lin7_dup = int (length (table lin7_dup)) \<and>
   aaIterateAction lin7_dup (log_visit 0) [] = Inr (1, [([77, 0], 1, 33), ([77, 0], 1, 22)]) \<and>
   aaIterateAction lin7_dup (log_visit (- 1)) [] = Inr (- 1, [([77, 0], 1, 33)])"
proof -
  have 1: "size_aa lin7_tomb = int (length (table lin7_tomb))"
    by (simp add: lin7_tomb_def lin7_empty_def fresh7_def)
  have 2: "size_aa lin7_dup = int (length (table lin7_dup))"
    by (simp add: lin7_dup_def lin7_tomb_def lin7_empty_def fresh7_def)
  have u1: "used_entries lin7_tomb = [([77, 0], 1, 22)]"
    by (simp add: used_entries_def lin7_tomb_def lin7_empty_def fresh7_def new_slot_def
        zero_slot_def)
  have u2: "used_entries lin7_dup = [([77, 0], 1, 33), ([77, 0], 1, 22)]"
    by (simp add: used_entries_def lin7_dup_def lin7_tomb_def lin7_empty_def fresh7_def
        new_slot_def zero_slot_def)
  show ?thesis
    using 1 2
      traverse_visits_used_slots_in_order[OF 1, of "log_visit 0" "[]"]
      traverse_visits_used_slots_in_order[OF 2, of "log_visit 0" "[]"]
      traverse_visits_used_slots_in_order[OF 2, of "log_visit (- 1)" "[]"]
    by (simp add: u1 u2 log_visit_def)
qed

text \<open>
  Claim C2, evaluated where the code departs from it. In a table of capacity 7 with linear
  probing, \<open>"F"\<close> and \<open>"M"\<close> are inserted (both hash to 0, so \<open>"M"\<close> goes to slot 1) and
  \<open>"F"\<close> is deleted. \<open>"M"\<close> is still in slot 1, in use, one linear step behind its start
  index, but the tombstone in slot 0 ends the walk: lookup and delete of \<open>"M"\<close> return
  \<^verbatim>\<open>NULL\<close>.
\<close>
theorem lookup_stops_at_tombstone:
  "aaCreateAssociativeArray getLargerPrime 7 ''linear'' ''sum'' ''sum'' = Some lin7_empty \<and>
   apply_operations lin7_empty [Insert [70, 0] 1 11, Insert [77, 0] 1 22, Delete [70, 0] 1]
     = Some (Inr lin7_tomb) \<and>
   table_at lin7_tomb 0 = Inr ((new_slot [70, 0] 1 11)\<lparr>validity := HASH_DELETED\<rparr>) \<and>
   table_at lin7_tomb 1 = Inr (new_slot [77, 0] 1 22) \<and>
   aaLookup lin7_tomb [77, 0] 1 = Some (Inr (lin7_tomb, 0)) \<and>
   aaDelete lin7_tomb [77, 0] 1 = Some (Inr (lin7_tomb, 0))"
  by code_simp

text \<open>
  Claim C3, evaluated where the code departs from it. In a table of capacity 7 with
  quadratic probing and the slots 0, 1, 2 and 4 in use (four inserts), the quadratic probe
  for \<open>"M"\<close> from start index 0 has not returned after 7 rounds (the capacity): it enters
  round 8 with 7 charged to \<^verbatim>\<open>insertCost\<close>. It has not returned after 46340 rounds
  either, because the squares modulo 7 are 0, 1, 2 and 4 only; in round 46341 the product
  \<^verbatim>\<open>attempt * attempt\<close> leaves the range of \<^verbatim>\<open>int\<close>, so the probe and the insert that
  called it end in undefined behaviour. With double hashing and one slot in use, the probe
  for \<open>"M"\<close> has step size 0: it has not returned after 7 rounds, nor after 2147483647
  rounds, and then the increment of \<^verbatim>\<open>attempt\<close> leaves the range of \<^verbatim>\<open>int\<close>.
\<close>
theorem quadratic_and_double_probe_exceed_capacity:
  "apply_operations quad7_empty
     [Insert [70, 0] 1 11, Insert [71, 0] 1 22, Insert [72, 0] 1 33, Insert [74, 0] 1 44]
     = Some (Inr quad7_four) \<and>
   size_aa quad7_four = 7 \<and>
   quadraticProbe_rounds 7 quad7_four [77, 0] 1 0 0 (Some 1) 1 =
     Again (quad7_four\<lparr>insertCost := 7\<rparr>, 8) \<and>
   quadraticProbe_rounds 46340 quad7_four [77, 0] 1 0 0 (Some 1) 1 =
     Again (quad7_four\<lparr>insertCost := 46340\<rparr>, 46341) \<and>
   quadraticProbe quad7_four [77, 0] 1 0 0 (Some 1) = Inl IntegerOverflow \<and>
   aaInsert quad7_four [77, 0] 1 55 = Some (Inl IntegerOverflow) \<and>
   apply_operations dbl7_empty [Insert [70, 0] 1 11] = Some (Inr dbl7_one) \<and>
   size_aa dbl7_one = 7 \<and>
   call_hash (hashAlgorithmSecondary dbl7_one) [77, 0] 1 (size_aa dbl7_one) = Inr 0 \<and>
   doubleHashProbe_rounds 7 dbl7_one [77, 0] 1 0 0 0 0 =
     Again (dbl7_one\<lparr>insertCost := 7\<rparr>, 7) \<and>
   doubleHashProbe_rounds 2147483647 dbl7_one [77, 0] 1 0 0 0 0 =
     Again (dbl7_one\<lparr>insertCost := 2147483647\<rparr>, 2147483647) \<and>
   doubleHashProbe dbl7_one [77, 0] 1 0 0 (Some 1) = Inl IntegerOverflow \<and>
   aaInsert dbl7_one [77, 0] 1 22 = Some (Inl IntegerOverflow)"
proof -
  have "apply_operations quad7_empty
          [Insert [70, 0] 1 11, Insert [71, 0] 1 22, Insert [72, 0] 1 33, Insert [74, 0] 1 44]
        = Some (Inr quad7_four)"
    by code_simp
  moreover have "apply_operations dbl7_empty [Insert [70, 0] 1 11] = Some (Inr dbl7_one)"
    by code_simp
  moreover have "size_aa quad7_four = 7" "size_aa dbl7_one = 7"
    by (simp_all add: quad7_four_def quad7_empty_def dbl7_one_def dbl7_empty_def fresh7_def)
  moreover
  have "call_hash (hashAlgorithmSecondary dbl7_one) [77, 0] 1 (size_aa dbl7_one) = Inr 0"
    by code_simp
  ultimately show ?thesis
    using quad_probe_overflow dbl_probe_overflow quad_insert_overflow dbl_insert_overflow
      quad7_seven_rounds quad7_all_rounds dbl7_seven_rounds dbl7_all_rounds
    by simp
qed

text \<open>
  Claim C4, evaluated where the code departs from it. After \<open>"F"\<close> and \<open>"M"\<close> were inserted
  and \<open>"F"\<close> was deleted, a second insert of \<open>"M"\<close> takes the tombstone in slot 0 without
  looking further: slots 0 and 1 are both in use and both hold \<open>"M"\<close>.
\<close>
theorem insert_after_delete_duplicates_key:
  "apply_operations lin7_empty
     [Insert [70, 0] 1 11, Insert [77, 0] 1 22, Delete [70, 0] 1, Insert [77, 0] 1 33]
     = Some (Inr lin7_dup) \<and>
   table_at lin7_dup 0 = Inr (new_slot [77, 0] 1 33) \<and>
   table_at lin7_dup 1 = Inr (new_slot [77, 0] 1 22) \<and>
   validity (new_slot [77, 0] 1 33) = HASH_USED \<and>
   validity (new_slot [77, 0] 1 22) = HASH_USED \<and>
   doKeysMatch (key (new_slot [77, 0] 1 33)) (keylen (new_slot [77, 0] 1 33))
               (key (new_slot [77, 0] 1 22)) (keylen (new_slot [77, 0] 1 22)) = Inr True"
  by code_simp

text \<open>
  Claim C5, evaluated where the code departs from it. The table holds \<open>"M"\<close> in slot 1, in
  use, behind a tombstone in slot 0. An insert of \<open>"M"\<close> does not fail: it returns the slot
  index 0 and raises the entry count from 2 to 3 (the entry in slot 1 stays as it was).
\<close>
theorem insert_of_present_key_behind_tombstone:
  "table_at lin7_tomb 1 = Inr (new_slot [77, 0] 1 22) \<and>
   aaInsert lin7_tomb [77, 0] 1 33 = Some (Inr (lin7_dup, 0)) \<and>
   nEntries lin7_tomb = 2 \<and> nEntries lin7_dup = 3 \<and>
   table_at lin7_dup 1 = Inr (new_slot [77, 0] 1 22)"
  by code_simp

text \<open>
  Claim C7, evaluated where the code departs from it. The table holds \<open>"F"\<close> in slot 0. A
  lookup of \<open>"M"\<close> (start index 0, one linear step to the empty slot 1) raises
  \<^verbatim>\<open>searchCost\<close> and \<^verbatim>\<open>insertCost\<close> by one each, and a delete of \<open>"M"\<close> raises
  \<^verbatim>\<open>deleteCost\<close> and \<^verbatim>\<open>insertCost\<close> by one each: the probe charges \<^verbatim>\<open>insertCost\<close>
  whoever calls it.
\<close>
theorem lookup_and_delete_charge_insertCost:
  "apply_operations lin7_empty [Insert [70, 0] 1 11] = Some (Inr lin7_one) \<and>
   insertCost lin7_one = 0 \<and>
   aaLookup lin7_one [77, 0] 1
     = Some (Inr (lin7_one\<lparr>searchCost := 1, insertCost := 1\<rparr>, 0)) \<and>
   aaDelete lin7_one [77, 0] 1
     = Some (Inr (lin7_one\<lparr>deleteCost := 1, insertCost := 1\<rparr>, 0))"
  by code_simp

text \<open>
  Claim C1, evaluated where the code departs from it. A freshly constructed table of
  capacity 7 with linear probing takes one insert, of the key of the three bytes 97, 0, 98
  (\<open>"a\0b"\<close>) with the value 11. The insert returns the slot index 6, but \<^verbatim>\<open>strdup\<close>
  copied the key up to its first NUL byte only: the slot holds the two bytes 97, 0 with the
  key length 3. The lookup of the same three bytes does not return the value 11: it
  compares three bytes of the two-byte copy, which is undefined behaviour. And the insert of
  a key whose buffer holds no NUL byte (the three bytes 97, 98, 99) reads behind the buffer
  in \<^verbatim>\<open>strdup\<close>.
\<close>
theorem key_with_nul_byte_is_not_retrievable:
  "aaCreateAssociativeArray getLargerPrime 7 ''linear'' ''sum'' ''sum'' = Some lin7_empty \<and>
   aaInsert lin7_empty [97, 0, 98] 3 11 = Some (Inr (lin7_nul, 6)) \<and>
   table_at lin7_nul 6 =
     Inr \<lparr>key = [97, 0], keylen = 3, valuep = 11, validity = HASH_USED\<rparr> \<and>
   aaLookup lin7_nul [97, 0, 98] 3 = Some (Inl BufferOverread) \<and>
   aaInsert lin7_empty [97, 98, 99] 3 11 = Some (Inl BufferOverread)"
  by code_simp

end
